theory Spec2Isabelle
  imports Main "HOL-Library.Word" "HOL-Library.Multiset"
begin

section \<open>Machine types and vectors\<close>

text \<open>
  The program is \<^verbatim>\<open>algorithm/introAlgorithm/c++-implmentation/chap.2/merge_sort.cc\<close>.
  Its elements are C++ \<^verbatim>\<open>int\<close> (32 bits, two's complement, read by \<open>sint\<close>), its indices
  are \<^verbatim>\<open>size_t\<close> (64 bits, unsigned, wrapping). A \<^verbatim>\<open>vector<int>\<close> is a list;
  \<^verbatim>\<open>v.size()\<close> is a \<^verbatim>\<open>size_t\<close>.

  \<^verbatim>\<open>v[n]\<close> is unchecked in C++: outside \<^verbatim>\<open>[0, v.size())\<close> the behaviour is undefined.
  The model makes that a value: every read and write is checked, and the first access
  outside the vector stops the run with \<open>Inl OutOfBounds\<close>.

  A \<^verbatim>\<open>vector<int>\<close> cannot hold \<open>2^63\<close> elements (its \<^verbatim>\<open>max_size()\<close> is at most
  \<^verbatim>\<open>PTRDIFF_MAX / sizeof(int)\<close>), a list can: the statements about in-range calls carry
  \<open>length A < 2 ^ 63\<close>, under which \<open>size_v A\<close> is the length and \<open>p + r\<close> does not wrap
  for indices of \<open>A\<close>.
\<close>

type_synonym cint = "32 word"
type_synonym size_t = "64 word"

datatype error = OutOfBounds

definition INT_MAX :: cint where
  "INT_MAX = 2147483647"

definition size_v :: "'a list \<Rightarrow> size_t" where
  "size_v v = of_nat (length v)"

definition vec_get :: "'a list \<Rightarrow> size_t \<Rightarrow> error + 'a" where
  "vec_get v n = (if n < size_v v then Inr (v ! unat n) else Inl OutOfBounds)"

definition vec_set :: "'a list \<Rightarrow> size_t \<Rightarrow> 'a \<Rightarrow> error + 'a list" where
  "vec_set v n x = (if n < size_v v then Inr (v[unat n := x]) else Inl OutOfBounds)"

text \<open>\<^verbatim>\<open>vector<int> L(n)\<close>: \<open>n\<close> elements, each 0. Storage is not bounded in the model.\<close>

definition new_vector :: "size_t \<Rightarrow> cint list" where
  "new_vector n = replicate (unat n) 0"

section \<open>The sentinel merge\<close>

text \<open>
  \<^verbatim>\<open>for (size_t i = 0; i < n1; i++) L[i] = A[p+i];\<close>
\<close>

function copy_left :: "cint list \<Rightarrow> size_t \<Rightarrow> cint list \<Rightarrow> size_t \<Rightarrow> size_t \<Rightarrow> error + cint list" where
  "copy_left A p L n1 i =
     (if i < n1 then
        (case vec_get A (p + i) of
           Inl e \<Rightarrow> Inl e
         | Inr x \<Rightarrow>
             (case vec_set L i x of
                Inl e \<Rightarrow> Inl e
              | Inr L' \<Rightarrow> copy_left A p L' n1 (i + 1)))
      else Inr L)"
  by pat_completeness auto
termination
proof (relation "measure (\<lambda>(A, p, L, n1, i). unat n1 - unat i)")
  fix A :: "cint list" and p :: size_t and L L' :: "cint list" and n1 i :: size_t and x :: cint
  assume "i < n1"
  then have lt: "unat i < unat n1"
    by (simp add: word_less_nat_alt)
  moreover have "unat n1 < 2 ^ 64"
    using unsigned_less [of n1] by simp
  ultimately have "Suc (unat i) < 2 ^ 64"
    by arith
  then have "unat (i + 1) = Suc (unat i)"
    by (simp add: unat_word_ariths)
  with lt show "((A, p, L', n1, i + 1), (A, p, L, n1, i)) \<in> measure (\<lambda>(A, p, L, n1, i). unat n1 - unat i)"
    by simp
qed simp

declare copy_left.simps [simp del]

text \<open>
  \<^verbatim>\<open>for (size_t i = 0; i < n2; i++) R[i] = A[q+i+1];\<close>
\<close>

function copy_right :: "cint list \<Rightarrow> size_t \<Rightarrow> cint list \<Rightarrow> size_t \<Rightarrow> size_t \<Rightarrow> error + cint list" where
  "copy_right A q R n2 i =
     (if i < n2 then
        (case vec_get A (q + i + 1) of
           Inl e \<Rightarrow> Inl e
         | Inr x \<Rightarrow>
             (case vec_set R i x of
                Inl e \<Rightarrow> Inl e
              | Inr R' \<Rightarrow> copy_right A q R' n2 (i + 1)))
      else Inr R)"
  by pat_completeness auto
termination
proof (relation "measure (\<lambda>(A, q, R, n2, i). unat n2 - unat i)")
  fix A :: "cint list" and q :: size_t and R R' :: "cint list" and n2 i :: size_t and x :: cint
  assume "i < n2"
  then have lt: "unat i < unat n2"
    by (simp add: word_less_nat_alt)
  moreover have "unat n2 < 2 ^ 64"
    using unsigned_less [of n2] by simp
  ultimately have "Suc (unat i) < 2 ^ 64"
    by arith
  then have "unat (i + 1) = Suc (unat i)"
    by (simp add: unat_word_ariths)
  with lt show "((A, q, R', n2, i + 1), (A, q, R, n2, i)) \<in> measure (\<lambda>(A, q, R, n2, i). unat n2 - unat i)"
    by simp
qed simp

declare copy_right.simps [simp del]

text \<open>
  The scan, lines 31 to 41. Its state is the vector and the three counters; the two
  buffers and \<open>r\<close> do not change.
  \<^verbatim>\<open>
    size_t i = 0;
    size_t j = 0;
    for (size_t k = p; k <= r; k++) {
        if (L[i] <= R[j]) { A[k] = L[i]; i++; }
        else              { A[k] = R[j]; j++; }
    }
  \<close>
  \<open>scan_step\<close> is one run of the body followed by \<^verbatim>\<open>k++\<close>.
\<close>

record scan_state =
  sA :: "cint list"
  si :: size_t
  sj :: size_t
  sk :: size_t

definition scan_step :: "cint list \<Rightarrow> cint list \<Rightarrow> scan_state \<Rightarrow> error + scan_state" where
  "scan_step L R s =
     (case vec_get L (si s) of
        Inl e \<Rightarrow> Inl e
      | Inr x \<Rightarrow>
          (case vec_get R (sj s) of
             Inl e \<Rightarrow> Inl e
           | Inr y \<Rightarrow>
               if sint x \<le> sint y then
                 (case vec_set (sA s) (sk s) x of
                    Inl e \<Rightarrow> Inl e
                  | Inr A' \<Rightarrow> Inr (s\<lparr>sA := A', si := si s + 1, sk := sk s + 1\<rparr>))
               else
                 (case vec_set (sA s) (sk s) y of
                    Inl e \<Rightarrow> Inl e
                  | Inr A' \<Rightarrow> Inr (s\<lparr>sA := A', sj := sj s + 1, sk := sk s + 1\<rparr>))))"

function scan :: "cint list \<Rightarrow> cint list \<Rightarrow> size_t \<Rightarrow> scan_state \<Rightarrow> error + scan_state" where
  "scan L R r s =
     (if sk s \<le> r then
        (case scan_step L R s of
           Inl e \<Rightarrow> Inl e
         | Inr s' \<Rightarrow> scan L R r s')
      else Inr s)"
  by pat_completeness auto
termination
proof (relation "measure (\<lambda>(L, R, r, s). unat (size_v (sA s)) - unat (sk s))")
  fix L R :: "cint list" and r :: size_t and s s' :: scan_state
  assume step: "scan_step L R s = Inr s'"
  define k n where "k = sk s" and "n = size_v (sA s)"
  from step have "k < n" and A: "size_v (sA s') = n" and k: "sk s' = k + 1"
    by (auto simp: k_def n_def scan_step_def vec_get_def vec_set_def size_v_def
             split: sum.splits if_splits)
  then have lt: "unat k < unat n"
    by (simp add: word_less_nat_alt)
  moreover have "unat n < 2 ^ 64"
    using unsigned_less [of n] by simp
  ultimately have "Suc (unat k) < 2 ^ 64"
    by arith
  then have "unat (k + 1) = Suc (unat k)"
    by (simp add: unat_word_ariths)
  with lt have "unat n - unat (k + 1) < unat n - unat k"
    by arith
  then show "((L, R, r, s'), (L, R, r, s)) \<in> measure (\<lambda>(L, R, r, s). unat (size_v (sA s)) - unat (sk s))"
    by (simp add: A k k_def [symmetric] n_def [symmetric])
qed simp

declare scan.simps [simp del]

text \<open>
  The states the scan passes through, each taken at the loop test: the first is the
  state before the first iteration, the last is the state the scan ends in (or the state
  whose iteration makes the access outside a vector).
\<close>

function scan_trace :: "cint list \<Rightarrow> cint list \<Rightarrow> size_t \<Rightarrow> scan_state \<Rightarrow> scan_state list" where
  "scan_trace L R r s =
     (if sk s \<le> r then
        (case scan_step L R s of
           Inl e \<Rightarrow> [s]
         | Inr s' \<Rightarrow> s # scan_trace L R r s')
      else [s])"
  by pat_completeness auto
termination
proof (relation "measure (\<lambda>(L, R, r, s). unat (size_v (sA s)) - unat (sk s))")
  fix L R :: "cint list" and r :: size_t and s s' :: scan_state
  assume step: "scan_step L R s = Inr s'"
  define k n where "k = sk s" and "n = size_v (sA s)"
  from step have "k < n" and A: "size_v (sA s') = n" and k: "sk s' = k + 1"
    by (auto simp: k_def n_def scan_step_def vec_get_def vec_set_def size_v_def
             split: sum.splits if_splits)
  then have lt: "unat k < unat n"
    by (simp add: word_less_nat_alt)
  moreover have "unat n < 2 ^ 64"
    using unsigned_less [of n] by simp
  ultimately have "Suc (unat k) < 2 ^ 64"
    by arith
  then have "unat (k + 1) = Suc (unat k)"
    by (simp add: unat_word_ariths)
  with lt have "unat n - unat (k + 1) < unat n - unat k"
    by arith
  then show "((L, R, r, s'), (L, R, r, s)) \<in> measure (\<lambda>(L, R, r, s). unat (size_v (sA s)) - unat (sk s))"
    by (simp add: A k k_def [symmetric] n_def [symmetric])
qed simp

declare scan_trace.simps [simp del]

text \<open>
  \<open>merge_setup\<close> is lines 12 to 29 of \<^verbatim>\<open>merge\<close>: the two buffers, filled and closed by
  the sentinel. \<open>merge\<close> is the whole function.
\<close>

definition merge_setup :: "cint list \<Rightarrow> size_t \<Rightarrow> size_t \<Rightarrow> size_t \<Rightarrow> error + (cint list \<times> cint list)" where
  "merge_setup A p q r =
     (let n1 = q - p + 1;
          n2 = r - q;
          L = new_vector (n1 + 1);
          R = new_vector (n2 + 1)
      in case copy_left A p L n1 0 of
           Inl e \<Rightarrow> Inl e
         | Inr L1 \<Rightarrow>
             (case vec_set L1 n1 INT_MAX of
                Inl e \<Rightarrow> Inl e
              | Inr L2 \<Rightarrow>
                  (case copy_right A q R n2 0 of
                     Inl e \<Rightarrow> Inl e
                   | Inr R1 \<Rightarrow>
                       (case vec_set R1 n2 INT_MAX of
                          Inl e \<Rightarrow> Inl e
                        | Inr R2 \<Rightarrow> Inr (L2, R2)))))"

definition merge :: "cint list \<Rightarrow> size_t \<Rightarrow> size_t \<Rightarrow> size_t \<Rightarrow> error + cint list" where
  "merge A p q r =
     (case merge_setup A p q r of
        Inl e \<Rightarrow> Inl e
      | Inr (L, R) \<Rightarrow>
          (case scan L R r \<lparr>sA = A, si = 0, sj = 0, sk = p\<rparr> of
             Inl e \<Rightarrow> Inl e
           | Inr s \<Rightarrow> Inr (sA s)))"

definition merge_trace :: "cint list \<Rightarrow> size_t \<Rightarrow> size_t \<Rightarrow> size_t \<Rightarrow> error + scan_state list" where
  "merge_trace A p q r =
     (case merge_setup A p q r of
        Inl e \<Rightarrow> Inl e
      | Inr (L, R) \<Rightarrow> Inr (scan_trace L R r \<lparr>sA = A, si = 0, sj = 0, sk = p\<rparr>))"

section \<open>Merge sort\<close>

text \<open>
  \<^verbatim>\<open>
  void merge_sort(vector<int>& A, size_t p, size_t r)
  {
      if (p < r) {
          size_t q = (p + r) / 2;
          merge_sort(A, p, q);
          merge_sort(A, q+1, r);
          merge(A, p, q, r);
      }
  }
  \<close>
  The recursion is not structural and \<open>p + r\<close> wraps, so the function is partial:
  \<open>None\<close> is a run that never returns, \<open>Some (Inl e)\<close> a run stopped by an access
  outside a vector, \<open>Some (Inr A')\<close> a run that returns with the vector \<open>A'\<close>.
\<close>

partial_function (option) merge_sort :: "cint list \<Rightarrow> size_t \<Rightarrow> size_t \<Rightarrow> (error + cint list) option" where
  "merge_sort A p r =
     (if p < r then
        (let q = (p + r) div 2 in
         Option.bind (merge_sort A p q) (\<lambda>r1.
           case r1 of
             Inl e \<Rightarrow> Some (Inl e)
           | Inr A1 \<Rightarrow>
               Option.bind (merge_sort A1 (q + 1) r) (\<lambda>r2.
                 case r2 of
                   Inl e \<Rightarrow> Some (Inl e)
                 | Inr A2 \<Rightarrow> Some (merge A2 p q r))))
      else Some (Inr A))"

declare merge_sort.simps [code]

section \<open>The variant on \<^verbatim>\<open>std::merge\<close>\<close>

text \<open>
  \<^verbatim>\<open>std::merge\<close> is the C++ library's; its model is the library's algorithm on the two
  input ranges as lists: while both ranges have an element, the head of the second is
  taken when it is less than the head of the first, the head of the first otherwise;
  then the rest of the first range and the rest of the second are copied.
\<close>

fun std_merge :: "cint list \<Rightarrow> cint list \<Rightarrow> cint list" where
  "std_merge [] ys = ys"
| "std_merge (x # xs) [] = x # xs"
| "std_merge (x # xs) (y # ys) =
     (if sint y < sint x then y # std_merge (x # xs) ys
      else x # std_merge xs (y # ys))"

text \<open>
  An iterator into a vector is the index it points at. \<^verbatim>\<open>std::next(A.begin(), n)\<close> is
  defined up to \<^verbatim>\<open>A.end()\<close> only. \<open>range_v A lo hi\<close> is what lies in
  \<^verbatim>\<open>[lo, hi)\<close>.
\<close>

definition std_next :: "'a list \<Rightarrow> size_t \<Rightarrow> error + size_t" where
  "std_next v n = (if n \<le> size_v v then Inr n else Inl OutOfBounds)"

definition range_v :: "'a list \<Rightarrow> size_t \<Rightarrow> size_t \<Rightarrow> 'a list" where
  "range_v v lo hi = take (unat hi - unat lo) (drop (unat lo) v)"

text \<open>
  \<^verbatim>\<open>std::merge(first1, last1, first2, last2, B.begin())\<close>: both ranges must be valid,
  and the output is written over \<open>B\<close> from its first element.
\<close>

definition std_merge_into ::
  "cint list \<Rightarrow> size_t \<Rightarrow> size_t \<Rightarrow> size_t \<Rightarrow> size_t \<Rightarrow> cint list \<Rightarrow> error + cint list" where
  "std_merge_into A first1 last1 first2 last2 B =
     (if first1 \<le> last1 \<and> first2 \<le> last2 then
        (let out = std_merge (range_v A first1 last1) (range_v A first2 last2)
         in if length out \<le> length B then Inr (out @ drop (length out) B)
            else Inl OutOfBounds)
      else Inl OutOfBounds)"

text \<open>
  \<^verbatim>\<open>
    for (auto sa = start, sb = B.begin(); sa != end && sb != B.end(); sa++, sb++)
        *sa = *sb;
  \<close>
\<close>

function copy_back :: "cint list \<Rightarrow> cint list \<Rightarrow> size_t \<Rightarrow> size_t \<Rightarrow> size_t \<Rightarrow> error + cint list" where
  "copy_back A B fin sa sb =
     (if sa \<noteq> fin \<and> sb \<noteq> size_v B then
        (case vec_get B sb of
           Inl e \<Rightarrow> Inl e
         | Inr x \<Rightarrow>
             (case vec_set A sa x of
                Inl e \<Rightarrow> Inl e
              | Inr A' \<Rightarrow> copy_back A' B fin (sa + 1) (sb + 1)))
      else Inr A)"
  by pat_completeness auto
termination
proof (relation "measure (\<lambda>(A, B, fin, sa, sb). unat (size_v B) - unat sb)")
  fix A A' B :: "cint list" and fin sa sb :: size_t and x :: cint
  assume "vec_get B sb = Inr x"
  then have "sb < size_v B"
    by (simp add: vec_get_def split: if_splits)
  then have lt: "unat sb < unat (size_v B)"
    by (simp add: word_less_nat_alt)
  moreover have "unat (size_v B) < 2 ^ 64"
    using unsigned_less [of "size_v B"] by simp
  ultimately have "Suc (unat sb) < 2 ^ 64"
    by arith
  then have "unat (sb + 1) = Suc (unat sb)"
    by (simp add: unat_word_ariths)
  with lt show "((A', B, fin, sa + 1, sb + 1), (A, B, fin, sa, sb)) \<in> measure (\<lambda>(A, B, fin, sa, sb). unat (size_v B) - unat sb)"
    by simp
qed simp

declare copy_back.simps [simp del]

definition merge_lazy :: "cint list \<Rightarrow> size_t \<Rightarrow> size_t \<Rightarrow> size_t \<Rightarrow> error + cint list" where
  "merge_lazy A p q r =
     (case std_next A p of
        Inl e \<Rightarrow> Inl e
      | Inr start \<Rightarrow>
          (case std_next A (q + 1) of
             Inl e \<Rightarrow> Inl e
           | Inr middle \<Rightarrow>
               (case std_next A (r + 1) of
                  Inl e \<Rightarrow> Inl e
                | Inr fin \<Rightarrow>
                    (let B = new_vector (r - p + 1)
                     in case std_merge_into A start middle middle fin B of
                          Inl e \<Rightarrow> Inl e
                        | Inr B' \<Rightarrow> copy_back A B' fin start 0))))"

partial_function (option) merge_sort_lazy :: "cint list \<Rightarrow> size_t \<Rightarrow> size_t \<Rightarrow> (error + cint list) option" where
  "merge_sort_lazy A p r =
     (if p < r then
        (let q = (p + r) div 2 in
         Option.bind (merge_sort_lazy A p q) (\<lambda>r1.
           case r1 of
             Inl e \<Rightarrow> Some (Inl e)
           | Inr A1 \<Rightarrow>
               Option.bind (merge_sort_lazy A1 (q + 1) r) (\<lambda>r2.
                 case r2 of
                   Inl e \<Rightarrow> Some (Inl e)
                 | Inr A2 \<Rightarrow> Some (merge_lazy A2 p q r))))
      else Some (Inr A))"

declare merge_sort_lazy.simps [code]

section \<open>The entry point\<close>

text \<open>
  \<^verbatim>\<open>cout << i\<close> writes an \<^verbatim>\<open>int\<close> in decimal, with a minus sign when it is negative;
  \<^verbatim>\<open>endl\<close> writes a newline. \<open>print_vector\<close> is
  \<^verbatim>\<open>for ( auto i : B ) cout << i << ' ';\<close>
\<close>

fun dec_digits :: "nat \<Rightarrow> string" where
  "dec_digits n =
     (if n < 10 then [''0123456789'' ! n]
      else dec_digits (n div 10) @ [''0123456789'' ! (n mod 10)])"

definition show_int :: "cint \<Rightarrow> string" where
  "show_int x =
     (if sint x < 0 then CHR ''-'' # dec_digits (nat (- sint x))
      else dec_digits (nat (sint x)))"

definition print_vector :: "cint list \<Rightarrow> string" where
  "print_vector v = concat (map (\<lambda>i. show_int i @ '' '') v)"

definition endl :: string where
  "endl = [CHR 0x0A]"

text \<open>
  \<open>main\<close> gives what the program wrote to standard output and its exit code.
  \<^verbatim>\<open>
    vector<int> A{31, 41, 59, 26, 42, 58};
    vector<int> B{1, 3, 5, 2, 4, 6, 8};
    merge(B,0, 2, B.size() - 1);
    for ( auto i : B ) cout << i << ' ';
    cout << endl;
    merge_sort_lazy(A, 0, A.size() - 1);
    for ( auto i : A ) cout << i << ' ';
    cout << endl;
    return 0;
  \<close>
\<close>

definition main :: "(error + string \<times> int) option" where
  "main =
     (let A = [31, 41, 59, 26, 42, 58];
          B = [1, 3, 5, 2, 4, 6, 8]
      in case merge B 0 2 (size_v B - 1) of
           Inl e \<Rightarrow> Some (Inl e)
         | Inr B' \<Rightarrow>
             (let out1 = print_vector B' @ endl
              in Option.bind (merge_sort_lazy A 0 (size_v A - 1)) (\<lambda>res.
                   case res of
                     Inl e \<Rightarrow> Some (Inl e)
                   | Inr A' \<Rightarrow> Some (Inr (out1 @ print_vector A' @ endl, 0)))))"

section \<open>Notions used in the statements\<close>

text \<open>
  \<open>sub_range A p r\<close> is \<open>A[p..r]\<close>, both ends included. A sequence of \<^verbatim>\<open>int\<close> is in
  non-decreasing order when its values, read as signed numbers, are.
\<close>

definition sub_range :: "'a list \<Rightarrow> size_t \<Rightarrow> size_t \<Rightarrow> 'a list" where
  "sub_range A p r = take (Suc (unat r) - unat p) (drop (unat p) A)"

definition non_decreasing :: "cint list \<Rightarrow> bool" where
  "non_decreasing xs \<longleftrightarrow> sorted (map sint xs)"

text \<open>
  \<open>unchanged_outside A A' p r\<close>: \<open>A'\<close> is as long as \<open>A\<close> and agrees with it at every
  index below \<open>p\<close> or above \<open>r\<close>.
\<close>

definition unchanged_outside :: "'a list \<Rightarrow> 'a list \<Rightarrow> size_t \<Rightarrow> size_t \<Rightarrow> bool" where
  "unchanged_outside A A' p r \<longleftrightarrow>
     length A' = length A \<and> (\<forall>n<length A. n < unat p \<or> unat r < n \<longrightarrow> A' ! n = A ! n)"

text \<open>
  The invariant of the scan over the buffers \<open>xs @ [INT_MAX]\<close> and \<open>ys @ [INT_MAX]\<close>:
  neither cursor is past the sentinel of its buffer, and what is left to write is what is
  left to read.
\<close>

definition scan_inv :: "cint list \<Rightarrow> cint list \<Rightarrow> size_t \<Rightarrow> scan_state \<Rightarrow> bool" where
  "scan_inv xs ys r s \<longleftrightarrow>
     unat (si s) \<le> length xs \<and> unat (sj s) \<le> length ys \<and>
     unat (sk s) + (length xs - unat (si s)) + (length ys - unat (sj s)) = Suc (unat r) \<and>
     unat r < length (sA s) \<and> length (sA s) < 2 ^ 63 \<and>
     length xs < 2 ^ 63 \<and> length ys < 2 ^ 63"

section \<open>Machine arithmetic and vector accesses\<close>

lemma word_succ_unat:
  fixes i n :: "'a::len word"
  assumes "i < n"
  shows "unat (i + 1) = Suc (unat i)"
proof -
  have "unat n < 2 ^ LENGTH('a)"
    by (rule unsigned_less)
  moreover from assms have "unat i < unat n"
    by (simp add: word_less_nat_alt)
  ultimately have "Suc (unat i) < 2 ^ LENGTH('a)"
    by arith
  then show ?thesis
    by (simp add: unat_word_ariths)
qed

lemma unat_size_v: "length v < 2 ^ 64 \<Longrightarrow> unat (size_v v) = length v"
  by (simp add: size_v_def unat_of_nat)

lemma lt_size_v: "length v < 2 ^ 64 \<Longrightarrow> n < size_v v \<longleftrightarrow> unat n < length v"
  by (simp add: word_less_nat_alt unat_size_v)

lemma vec_get_ok: "length v < 2 ^ 64 \<Longrightarrow> unat n < length v \<Longrightarrow> vec_get v n = Inr (v ! unat n)"
  by (simp add: vec_get_def lt_size_v)

lemma vec_set_ok: "length v < 2 ^ 64 \<Longrightarrow> unat n < length v \<Longrightarrow> vec_set v n x = Inr (v[unat n := x])"
  by (simp add: vec_set_def lt_size_v)

subsection \<open>The copy loops\<close>

lemma copy_left_spec:
  assumes "unat p + unat n \<le> length A" "length A < 2 ^ 64" "unat n \<le> length B" "length B < 2 ^ 64" "i \<le> n"
  shows "copy_left A p B n i =
         Inr (take (unat i) B @ take (unat n - unat i) (drop (unat p + unat i) A) @ drop (unat n) B)"
  using assms
proof (induction A p B n i rule: copy_left.induct)
  case (1 A p L n1 i)
  show ?case
  proof (cases "i < n1")
    case False
    with "1.prems" have "i = n1" by simp
    with False show ?thesis
      by (subst copy_left.simps) simp
  next
    case True
    then have lt: "unat i < unat n1"
      by (simp add: word_less_nat_alt)
    have suc: "unat (i + 1) = Suc (unat i)"
      using True by (rule word_succ_unat)
    from lt "1.prems" have "unat p + unat i < 2 ^ 64"
      by arith
    then have pi: "unat (p + i) = unat p + unat i"
      by (simp add: unat_word_ariths)
    with lt "1.prems" have g: "vec_get A (p + i) = Inr (A ! (unat p + unat i))"
      by (simp add: vec_get_ok)
    from lt "1.prems" have s: "vec_set L i (A ! (unat p + unat i)) = Inr (L[unat i := A ! (unat p + unat i)])"
      by (simp add: vec_set_ok)
    from True have le: "i + 1 \<le> n1"
      by (simp add: word_le_nat_alt suc lt Suc_leI)
    have IH: "copy_left A p (L[unat i := A ! (unat p + unat i)]) n1 (i + 1) =
      Inr (take (unat (i + 1)) (L[unat i := A ! (unat p + unat i)]) @
           take (unat n1 - unat (i + 1)) (drop (unat p + unat (i + 1)) A) @
           drop (unat n1) (L[unat i := A ! (unat p + unat i)]))"
      using "1.prems" le by (intro "1.IH" [OF True g s]) simp_all
    have t: "take (Suc (unat i)) (L[unat i := x]) = take (unat i) L @ [x]" for x
      using lt "1.prems" by (simp add: take_Suc_conv_app_nth)
    have d: "take (unat n1 - unat i) (drop (unat p + unat i) A) =
             A ! (unat p + unat i) # take (unat n1 - Suc (unat i)) (drop (Suc (unat p + unat i)) A)"
    proof -
      from lt "1.prems" have "unat p + unat i < length A"
        by arith
      then have "drop (unat p + unat i) A = A ! (unat p + unat i) # drop (Suc (unat p + unat i)) A"
        by (simp add: Cons_nth_drop_Suc)
      moreover from lt have "unat n1 - unat i = Suc (unat n1 - Suc (unat i))"
        by arith
      ultimately show ?thesis
        by simp
    qed
    show ?thesis
      using True lt by (subst copy_left.simps) (simp add: g s IH suc t d)
  qed
qed

lemma copy_right_eq: "copy_right A q R n i = copy_left A (q + 1) R n i"
proof (induction A q R n i rule: copy_right.induct)
  case (1 A q R n2 i)
  have idx: "q + i + 1 = q + 1 + i"
    by simp
  show ?case
    by (subst copy_right.simps, subst copy_left.simps)
       (auto simp: idx "1.IH" split: sum.splits)
qed

subsection \<open>Signed order and the library merge\<close>

lemma sint_INT_MAX: "sint INT_MAX = 2147483647"
  by (simp add: INT_MAX_def)

lemma sint_le_INT_MAX: "sint (x :: cint) \<le> sint INT_MAX"
  using sint_lt [of x] by (simp add: sint_INT_MAX)

lemma below_INT_MAX: "sint (x :: cint) < sint INT_MAX \<longleftrightarrow> x \<noteq> INT_MAX"
  using sint_le_INT_MAX [of x] by (auto simp: order_less_le signed_word_eqI)

lemma std_merge_Nil2: "std_merge xs [] = xs"
  by (cases xs) simp_all

lemma mset_std_merge: "mset (std_merge xs ys) = mset xs + mset ys"
  by (induction xs ys rule: std_merge.induct) simp_all

lemma set_std_merge: "set (std_merge xs ys) = set xs \<union> set ys"
  by (induction xs ys rule: std_merge.induct) auto

lemma length_std_merge: "length (std_merge xs ys) = length xs + length ys"
  by (induction xs ys rule: std_merge.induct) simp_all

lemma sorted_std_merge:
  "sorted (map sint xs) \<Longrightarrow> sorted (map sint ys) \<Longrightarrow> sorted (map sint (std_merge xs ys))"
  by (induction xs ys rule: std_merge.induct) (auto simp: set_std_merge)

subsection \<open>The buffers\<close>

lemma drop_Cons_replicate: "drop n (x # replicate n x) = [x]"
  by (induction n) simp_all

lemma merge_setup_spec:
  assumes A: "A = pre @ xs @ ys @ post"
    and pre: "length pre = unat p"
    and xs: "length xs = Suc (unat q - unat p)"
    and ys: "length ys = unat r - unat q"
    and pq: "p \<le> q" and qr: "q \<le> r"
    and len: "length A < 2 ^ 63"
  shows "merge_setup A p q r = Inr (xs @ [INT_MAX], ys @ [INT_MAX])"
proof -
  from pq qr have le: "unat p \<le> unat q" "unat q \<le> unat r"
    by (simp_all add: word_le_nat_alt)
  with A pre xs ys have lenA: "length A = Suc (unat r) + length post"
    by simp
  with len have r: "Suc (unat r) < 2 ^ 63"
    by simp
  define n1 n2 where "n1 = q - p + 1" and "n2 = r - q"
  have qp: "unat (q - p) = unat q - unat p"
    using pq by (rule unat_sub)
  have n1: "unat n1 = Suc (unat q - unat p)"
    using le r by (simp add: n1_def unat_word_ariths qp)
  have n1': "unat (n1 + 1) = Suc (Suc (unat q - unat p))"
    using le r by (simp add: unat_word_ariths n1)
  have n2: "unat n2 = unat r - unat q"
    unfolding n2_def using qr by (rule unat_sub)
  have n2': "unat (n2 + 1) = Suc (unat r - unat q)"
    using le r by (simp add: unat_word_ariths n2)
  have q1: "unat (q + 1) = Suc (unat q)"
    using le r by (simp add: unat_word_ariths)
  have dp: "drop (unat p) A = xs @ ys @ post"
    using A pre by simp
  have dq: "drop (Suc (unat q)) A = ys @ post"
    using A pre xs le by simp
  have L1: "copy_left A p (new_vector (n1 + 1)) n1 0 = Inr (xs @ [0])"
    using le r len lenA xs
    by (subst copy_left_spec) (simp_all add: new_vector_def n1 n1' dp drop_Cons_replicate)
  have L2: "vec_set (xs @ [0]) n1 INT_MAX = Inr (xs @ [INT_MAX])"
  proof -
    have "unat n1 = length xs"
      by (simp add: n1 xs)
    moreover from xs r le have "length xs < 2 ^ 63"
      by simp
    ultimately show ?thesis
      by (subst vec_set_ok) simp_all
  qed
  have R1: "copy_right A q (new_vector (n2 + 1)) n2 0 = Inr (ys @ [0])"
    unfolding copy_right_eq using le r len lenA ys
    by (subst copy_left_spec) (simp_all add: new_vector_def n2 n2' q1 dq drop_Cons_replicate)
  have R2: "vec_set (ys @ [0]) n2 INT_MAX = Inr (ys @ [INT_MAX])"
  proof -
    have "unat n2 = length ys"
      by (simp add: n2 ys)
    moreover from ys r le have "length ys < 2 ^ 63"
      by simp
    ultimately show ?thesis
      by (subst vec_set_ok) simp_all
  qed
  show ?thesis
    unfolding merge_setup_def Let_def n1_def [symmetric] n2_def [symmetric]
    by (simp add: L1 L2 R1 R2)
qed

subsection \<open>The scan\<close>

lemma scan_step_spec:
  assumes inv: "scan_inv xs ys r s"
    and xs: "\<forall>x\<in>set xs. x \<noteq> INT_MAX"
    and ys: "\<forall>y\<in>set ys. y \<noteq> INT_MAX"
    and run: "sk s \<le> r"
  shows "\<exists>s' v. scan_step (xs @ [INT_MAX]) (ys @ [INT_MAX]) s = Inr s' \<and>
           scan_inv xs ys r s' \<and>
           unat (sk s') = Suc (unat (sk s)) \<and>
           unat (si s') + unat (sj s') = Suc (unat (si s) + unat (sj s)) \<and>
           sA s' = (sA s)[unat (sk s) := v] \<and>
           std_merge (drop (unat (si s)) xs) (drop (unat (sj s)) ys) =
             v # std_merge (drop (unat (si s')) xs) (drop (unat (sj s')) ys)"
proof -
  define i j k where "i = unat (si s)" and "j = unat (sj s)" and "k = unat (sk s)"
  have i: "i \<le> length xs" and j: "j \<le> length ys"
    and sum: "k + (length xs - i) + (length ys - j) = Suc (unat r)"
    and r: "unat r < length (sA s)" and lenA: "length (sA s) < 2 ^ 63"
    and lxs: "length xs < 2 ^ 63" and lys: "length ys < 2 ^ 63"
    using inv unfolding scan_inv_def i_def j_def k_def by blast+
  from run have kr: "k \<le> unat r"
    by (simp add: word_le_nat_alt k_def)
  with r lenA have kA: "k < length (sA s)" and k63: "Suc k < 2 ^ 63"
    by simp_all
  then have k1: "unat (sk s + 1) = Suc k"
    by (simp add: unat_word_ariths k_def)
  from i lxs have i1: "unat (si s + 1) = Suc i"
    by (simp add: unat_word_ariths i_def)
  from j lys have j1: "unat (sj s + 1) = Suc j"
    by (simp add: unat_word_ariths j_def)
  have gL: "vec_get (xs @ [INT_MAX]) (si s) = Inr ((xs @ [INT_MAX]) ! i)"
    using i lxs by (subst vec_get_ok) (simp_all add: i_def)
  have gR: "vec_get (ys @ [INT_MAX]) (sj s) = Inr ((ys @ [INT_MAX]) ! j)"
    using j lys by (subst vec_get_ok) (simp_all add: j_def)
  have put: "vec_set (sA s) (sk s) v = Inr ((sA s)[k := v])" for v
    using kA lenA by (subst vec_set_ok) (simp_all add: k_def)
  from sum kr have rest: "i < length xs \<or> j < length ys"
    by arith
  consider (both) "i < length xs" "j < length ys"
    | (left_done) "i = length xs" "j < length ys"
    | (right_done) "i < length xs" "j = length ys"
    using rest i j by linarith
  then show ?thesis
  proof cases
    case both
    then have dx: "drop i xs = xs ! i # drop (Suc i) xs" and dy: "drop j ys = ys ! j # drop (Suc j) ys"
      by (simp_all add: Cons_nth_drop_Suc)
    show ?thesis
    proof (cases "sint (xs ! i) \<le> sint (ys ! j)")
      case True
      with both have "scan_step (xs @ [INT_MAX]) (ys @ [INT_MAX]) s =
          Inr (s\<lparr>sA := (sA s)[k := xs ! i], si := si s + 1, sk := sk s + 1\<rparr>)"
        by (simp add: scan_step_def gL gR put nth_append)
      moreover have "scan_inv xs ys r (s\<lparr>sA := (sA s)[k := xs ! i], si := si s + 1, sk := sk s + 1\<rparr>)"
        using both sum r lenA lxs lys j
        by (simp add: scan_inv_def k1 i1 j_def [symmetric])
      moreover have "std_merge (drop i xs) (drop j ys) = xs ! i # std_merge (drop (Suc i) xs) (drop j ys)"
        using True by (subst dx, subst (1 2) dy) simp
      ultimately show ?thesis
        by (simp add: k1 i1 i_def [symmetric] j_def [symmetric] k_def [symmetric])
    next
      case False
      with both have "scan_step (xs @ [INT_MAX]) (ys @ [INT_MAX]) s =
          Inr (s\<lparr>sA := (sA s)[k := ys ! j], sj := sj s + 1, sk := sk s + 1\<rparr>)"
        by (simp add: scan_step_def gL gR put nth_append)
      moreover have "scan_inv xs ys r (s\<lparr>sA := (sA s)[k := ys ! j], sj := sj s + 1, sk := sk s + 1\<rparr>)"
        using both sum r lenA lxs lys i
        by (simp add: scan_inv_def k1 j1 i_def [symmetric])
      moreover have "std_merge (drop i xs) (drop j ys) = ys ! j # std_merge (drop i xs) (drop (Suc j) ys)"
        using False by (subst (1 2) dx, subst dy) simp
      ultimately show ?thesis
        by (simp add: k1 j1 i_def [symmetric] j_def [symmetric] k_def [symmetric])
    qed
  next
    case left_done
    then have dy: "drop j ys = ys ! j # drop (Suc j) ys"
      by (simp add: Cons_nth_drop_Suc)
    from left_done ys have "ys ! j \<noteq> INT_MAX"
      by simp
    then have "\<not> sint INT_MAX \<le> sint (ys ! j)"
      by (simp add: below_INT_MAX [symmetric])
    with left_done have "scan_step (xs @ [INT_MAX]) (ys @ [INT_MAX]) s =
        Inr (s\<lparr>sA := (sA s)[k := ys ! j], sj := sj s + 1, sk := sk s + 1\<rparr>)"
      by (simp add: scan_step_def gL gR put nth_append)
    moreover have "scan_inv xs ys r (s\<lparr>sA := (sA s)[k := ys ! j], sj := sj s + 1, sk := sk s + 1\<rparr>)"
      using left_done sum r lenA lxs lys i
      by (simp add: scan_inv_def k1 j1 i_def [symmetric])
    moreover have "std_merge (drop i xs) (drop j ys) = ys ! j # std_merge (drop i xs) (drop (Suc j) ys)"
      using left_done by (subst dy) simp
    ultimately show ?thesis
      by (simp add: k1 j1 i_def [symmetric] j_def [symmetric] k_def [symmetric])
  next
    case right_done
    then have dx: "drop i xs = xs ! i # drop (Suc i) xs"
      by (simp add: Cons_nth_drop_Suc)
    have "sint (xs ! i) \<le> sint INT_MAX"
      by (rule sint_le_INT_MAX)
    with right_done have "scan_step (xs @ [INT_MAX]) (ys @ [INT_MAX]) s =
        Inr (s\<lparr>sA := (sA s)[k := xs ! i], si := si s + 1, sk := sk s + 1\<rparr>)"
      by (simp add: scan_step_def gL gR put nth_append)
    moreover have "scan_inv xs ys r (s\<lparr>sA := (sA s)[k := xs ! i], si := si s + 1, sk := sk s + 1\<rparr>)"
      using right_done sum r lenA lxs lys j
      by (simp add: scan_inv_def k1 i1 j_def [symmetric])
    moreover have "std_merge (drop i xs) (drop j ys) = xs ! i # std_merge (drop (Suc i) xs) (drop j ys)"
      using right_done by (subst dx) (simp add: std_merge_Nil2)
    ultimately show ?thesis
      by (simp add: k1 i1 i_def [symmetric] j_def [symmetric] k_def [symmetric])
  qed
qed

lemma scan_spec:
  assumes inv: "scan_inv xs ys r s"
    and xs: "\<forall>x\<in>set xs. x \<noteq> INT_MAX"
    and ys: "\<forall>y\<in>set ys. y \<noteq> INT_MAX"
  shows "\<exists>s'. scan (xs @ [INT_MAX]) (ys @ [INT_MAX]) r s = Inr s' \<and>
           sA s' = take (unat (sk s)) (sA s) @
                   std_merge (drop (unat (si s)) xs) (drop (unat (sj s)) ys) @
                   drop (Suc (unat r)) (sA s) \<and>
           unat (si s') = length xs \<and> unat (sj s') = length ys"
  using inv
proof (induction "Suc (unat r) - unat (sk s)" arbitrary: s)
  case 0
  then have k: "unat (sk s) = Suc (unat r)" and i: "unat (si s) = length xs" and j: "unat (sj s) = length ys"
    by (auto simp: scan_inv_def)
  then have "\<not> sk s \<le> r"
    by (simp add: word_le_nat_alt)
  then have "scan (xs @ [INT_MAX]) (ys @ [INT_MAX]) r s = Inr s"
    by (subst scan.simps) simp
  then show ?case
    by (simp add: k i j)
next
  case (Suc n)
  then have run: "sk s \<le> r"
    by (simp add: word_le_nat_alt)
  from scan_step_spec [OF Suc.prems xs ys run]
  obtain s' v where step: "scan_step (xs @ [INT_MAX]) (ys @ [INT_MAX]) s = Inr s'"
    and inv': "scan_inv xs ys r s'"
    and k': "unat (sk s') = Suc (unat (sk s))"
    and A': "sA s' = (sA s)[unat (sk s) := v]"
    and m: "std_merge (drop (unat (si s)) xs) (drop (unat (sj s)) ys) =
              v # std_merge (drop (unat (si s')) xs) (drop (unat (sj s')) ys)"
    by blast
  from Suc.hyps(2) k' have "n = Suc (unat r) - unat (sk s')"
    by simp
  from Suc.hyps(1) [OF this inv']
  obtain t where t: "scan (xs @ [INT_MAX]) (ys @ [INT_MAX]) r s' = Inr t"
    and At: "sA t = take (unat (sk s')) (sA s') @
                   std_merge (drop (unat (si s')) xs) (drop (unat (sj s')) ys) @
                   drop (Suc (unat r)) (sA s')"
    and it: "unat (si t) = length xs" and jt: "unat (sj t) = length ys"
    by blast
  from Suc.prems run have kA: "unat (sk s) < length (sA s)" and kr: "unat (sk s) \<le> unat r"
    by (simp_all add: scan_inv_def word_le_nat_alt)
  have "scan (xs @ [INT_MAX]) (ys @ [INT_MAX]) r s = Inr t"
    using run by (subst scan.simps) (simp add: step t)
  moreover have "sA t = take (unat (sk s)) (sA s) @
                   std_merge (drop (unat (si s)) xs) (drop (unat (sj s)) ys) @
                   drop (Suc (unat r)) (sA s)"
    using kA kr by (simp add: At A' k' m take_Suc_conv_app_nth)
  ultimately show ?case
    using it jt by simp
qed

lemma scan_trace_spec:
  assumes inv: "scan_inv xs ys r s"
    and xs: "\<forall>x\<in>set xs. x \<noteq> INT_MAX"
    and ys: "\<forall>y\<in>set ys. y \<noteq> INT_MAX"
  shows "(\<forall>t\<in>set (scan_trace (xs @ [INT_MAX]) (ys @ [INT_MAX]) r s). scan_inv xs ys r t) \<and>
         length (scan_trace (xs @ [INT_MAX]) (ys @ [INT_MAX]) r s) = Suc (Suc (unat r) - unat (sk s))"
  using inv
proof (induction "Suc (unat r) - unat (sk s)" arbitrary: s)
  case 0
  then have k: "unat (sk s) = Suc (unat r)"
    by (auto simp: scan_inv_def)
  then have "\<not> sk s \<le> r"
    by (simp add: word_le_nat_alt)
  then have "scan_trace (xs @ [INT_MAX]) (ys @ [INT_MAX]) r s = [s]"
    by (subst scan_trace.simps) simp
  with "0.prems" k show ?case
    by simp
next
  case (Suc n)
  then have run: "sk s \<le> r"
    by (simp add: word_le_nat_alt)
  from scan_step_spec [OF Suc.prems xs ys run]
  obtain s' where step: "scan_step (xs @ [INT_MAX]) (ys @ [INT_MAX]) s = Inr s'"
    and inv': "scan_inv xs ys r s'"
    and k': "unat (sk s') = Suc (unat (sk s))"
    by blast
  from Suc.hyps(2) k' have n: "n = Suc (unat r) - unat (sk s')"
    by simp
  have "scan_trace (xs @ [INT_MAX]) (ys @ [INT_MAX]) r s =
        s # scan_trace (xs @ [INT_MAX]) (ys @ [INT_MAX]) r s'"
    using run by (subst scan_trace.simps) (simp add: step)
  with Suc.hyps(1) [OF n inv'] Suc.prems Suc.hyps(2) n show ?case
    by simp
qed

text \<open>
  The trace and the run agree: the trace ends in the state the scan returns, or in the
  state whose iteration is stopped.
\<close>

lemma scan_trace_last:
  "scan_trace L R r s \<noteq> [] \<and>
   (case scan L R r s of
      Inr s' \<Rightarrow> last (scan_trace L R r s) = s' \<and> \<not> sk s' \<le> r
    | Inl e \<Rightarrow> sk (last (scan_trace L R r s)) \<le> r \<and>
               scan_step L R (last (scan_trace L R r s)) = Inl e)"
proof (induction L R r s rule: scan.induct)
  case (1 L R r s)
  show ?case
  proof (cases "sk s \<le> r")
    case False
    then show ?thesis
      by (subst (1 2 3 4) scan_trace.simps, subst scan.simps) simp
  next
    case True
    show ?thesis
    proof (cases "scan_step L R s")
      case (Inl e)
      with True show ?thesis
        by (subst (1 2 3 4) scan_trace.simps, subst scan.simps) simp
    next
      case (Inr s1)
      from "1.IH" [OF True Inr] True Inr show ?thesis
        by (subst (1 2 3 4) scan_trace.simps, subst scan.simps) (simp split: sum.splits)
    qed
  qed
qed

subsection \<open>The two merges on a range inside the vector\<close>

lemma merge_spec:
  assumes A: "A = pre @ xs @ ys @ post"
    and pre: "length pre = unat p"
    and lxs: "length xs = Suc (unat q - unat p)"
    and lys: "length ys = unat r - unat q"
    and pq: "p \<le> q" and qr: "q \<le> r"
    and len: "length A < 2 ^ 63"
    and xs: "\<forall>x\<in>set xs. x \<noteq> INT_MAX"
    and ys: "\<forall>y\<in>set ys. y \<noteq> INT_MAX"
  shows "merge A p q r = Inr (pre @ std_merge xs ys @ post)"
proof -
  let ?s0 = "\<lparr>sA = A, si = 0, sj = 0, sk = p\<rparr>"
  from pq qr have le: "unat p \<le> unat q" "unat q \<le> unat r"
    by (simp_all add: word_le_nat_alt)
  with A pre lxs lys have lenA: "length A = Suc (unat r) + length post"
    by simp
  from A have "length xs \<le> length A" "length ys \<le> length A"
    by simp_all
  with len have "length xs < 2 ^ 63" "length ys < 2 ^ 63"
    by simp_all
  moreover have "unat p + length xs + length ys = Suc (unat r)"
    using le lxs lys by simp
  moreover have "unat r < length A"
    using lenA by simp
  ultimately have "scan_inv xs ys r ?s0"
    using len by (simp add: scan_inv_def)
  from scan_spec [OF this xs ys]
  obtain s' where "scan (xs @ [INT_MAX]) (ys @ [INT_MAX]) r ?s0 = Inr s'"
    and "sA s' = take (unat p) A @ std_merge xs ys @ drop (Suc (unat r)) A"
    by auto
  moreover have "take (unat p) A = pre" "drop (Suc (unat r)) A = post"
    using A pre lxs lys le by simp_all
  ultimately show ?thesis
    by (simp add: merge_def merge_setup_spec [OF A pre lxs lys pq qr len])
qed

lemma merge_trace_spec:
  assumes A: "A = pre @ xs @ ys @ post"
    and pre: "length pre = unat p"
    and lxs: "length xs = Suc (unat q - unat p)"
    and lys: "length ys = unat r - unat q"
    and pq: "p \<le> q" and qr: "q \<le> r"
    and len: "length A < 2 ^ 63"
    and xs: "\<forall>x\<in>set xs. x \<noteq> INT_MAX"
    and ys: "\<forall>y\<in>set ys. y \<noteq> INT_MAX"
  shows "\<exists>tr. merge_trace A p q r = Inr tr \<and> (\<forall>t\<in>set tr. scan_inv xs ys r t) \<and>
           length tr = Suc (Suc (unat r - unat p))"
proof -
  let ?s0 = "\<lparr>sA = A, si = 0, sj = 0, sk = p\<rparr>"
  from pq qr have le: "unat p \<le> unat q" "unat q \<le> unat r"
    by (simp_all add: word_le_nat_alt)
  with A pre lxs lys have lenA: "length A = Suc (unat r) + length post"
    by simp
  from A have "length xs \<le> length A" "length ys \<le> length A"
    by simp_all
  with len have "length xs < 2 ^ 63" "length ys < 2 ^ 63"
    by simp_all
  moreover have "unat p + length xs + length ys = Suc (unat r)"
    using le lxs lys by simp
  moreover have "unat r < length A"
    using lenA by simp
  ultimately have "scan_inv xs ys r ?s0"
    using len by (simp add: scan_inv_def)
  from scan_trace_spec [OF this xs ys] le show ?thesis
    by (simp add: merge_trace_def merge_setup_spec [OF A pre lxs lys pq qr len] Suc_diff_le)
qed

lemma copy_back_spec:
  assumes "unat sa + (length B - unat sb) = unat fin" "unat fin \<le> length A" "length A < 2 ^ 63"
    "unat sb \<le> length B" "length B < 2 ^ 63"
  shows "copy_back A B fin sa sb = Inr (take (unat sa) A @ drop (unat sb) B @ drop (unat fin) A)"
  using assms
proof (induction "length B - unat sb" arbitrary: A sa sb)
  case 0
  then have "unat sa = unat fin"
    by simp
  then have "sa = fin"
    by (simp add: word_unat_eq_iff)
  then show ?case
    using 0 by (subst copy_back.simps) simp
next
  case (Suc n)
  then have sb: "unat sb < length B" and sa: "unat sa < unat fin"
    by simp_all
  then have ne: "sa \<noteq> fin" "sb \<noteq> size_v B"
    using Suc.prems by (auto simp: unat_size_v)
  from sb Suc.prems have sb1: "unat (sb + 1) = Suc (unat sb)"
    by (simp add: unat_word_ariths)
  from sa Suc.prems have sa1: "unat (sa + 1) = Suc (unat sa)"
    by (simp add: unat_word_ariths)
  have g: "vec_get B sb = Inr (B ! unat sb)"
    using sb Suc.prems by (subst vec_get_ok) simp_all
  have p: "vec_set A sa (B ! unat sb) = Inr (A[unat sa := B ! unat sb])"
    using sa Suc.prems by (subst vec_set_ok) simp_all
  have "copy_back (A[unat sa := B ! unat sb]) B fin (sa + 1) (sb + 1) =
        Inr (take (unat (sa + 1)) (A[unat sa := B ! unat sb]) @ drop (unat (sb + 1)) B @
             drop (unat fin) (A[unat sa := B ! unat sb]))"
    using Suc.prems Suc.hyps(2) sb sa by (intro Suc.hyps(1)) (simp_all add: sb1 sa1)
  then show ?case
    using ne sa sb Suc.prems
    by (subst copy_back.simps)
       (simp add: g p sa1 sb1 take_Suc_conv_app_nth Cons_nth_drop_Suc)
qed

lemma merge_lazy_spec:
  assumes A: "A = pre @ xs @ ys @ post"
    and pre: "length pre = unat p"
    and lxs: "length xs = Suc (unat q - unat p)"
    and lys: "length ys = unat r - unat q"
    and pq: "p \<le> q" and qr: "q \<le> r"
    and len: "length A < 2 ^ 63"
  shows "merge_lazy A p q r = Inr (pre @ std_merge xs ys @ post)"
proof -
  from pq qr have le: "unat p \<le> unat q" "unat q \<le> unat r"
    by (simp_all add: word_le_nat_alt)
  with A pre lxs lys have lenA: "length A = Suc (unat r) + length post"
    by simp
  with len have r: "Suc (unat r) < 2 ^ 63"
    by simp
  have q1: "unat (q + 1) = Suc (unat q)" and r1: "unat (r + 1) = Suc (unat r)"
    using le r by (simp_all add: unat_word_ariths)
  have rp: "unat (r - p + 1) = Suc (unat r - unat p)"
    using le r by (simp add: unat_word_ariths unat_sub word_le_nat_alt)
  have lenB: "Suc (unat r - unat p) = length xs + length ys"
    using le lxs lys by simp
  have n1: "std_next A p = Inr p" and n2: "std_next A (q + 1) = Inr (q + 1)"
    and n3: "std_next A (r + 1) = Inr (r + 1)"
    using le lenA len
    by (simp_all add: std_next_def word_le_nat_alt unat_size_v q1 r1)
  have rx: "range_v A p (q + 1) = xs" and ry: "range_v A (q + 1) (r + 1) = ys"
    using A pre lxs lys le by (simp_all add: range_v_def q1 r1 Suc_diff_le)
  have m: "std_merge_into A p (q + 1) (q + 1) (r + 1) (new_vector (r - p + 1)) = Inr (std_merge xs ys)"
    using le
    by (simp add: std_merge_into_def word_le_nat_alt q1 r1 rx ry Let_def new_vector_def rp
        length_std_merge lenB)
  have c: "copy_back A (std_merge xs ys) (r + 1) p 0 =
           Inr (take (unat p) A @ drop 0 (std_merge xs ys) @ drop (unat (r + 1)) A)"
    using le lenA len r lxs lys
    by (subst copy_back_spec) (simp_all add: r1 length_std_merge)
  have "take (unat p) A = pre" "drop (Suc (unat r)) A = post"
    using A pre lxs lys le by simp_all
  then show ?thesis
    by (simp add: merge_lazy_def n1 n2 n3 Let_def m c r1)
qed

subsection \<open>The two sorts on a range inside the vector\<close>

lemma mid_point:
  fixes p r :: size_t
  assumes "p < r" "unat r < 2 ^ 63"
  defines "q \<equiv> (p + r) div 2"
  shows "unat q = (unat p + unat r) div 2" "p \<le> q" "q < r" "unat (q + 1) = Suc (unat q)"
proof -
  from assms(1) have lt: "unat p < unat r"
    by (simp add: word_less_nat_alt)
  with assms(2) have "unat p + unat r < 2 ^ 64"
    by simp
  then have "unat (p + r) = unat p + unat r"
    by (simp add: unat_word_ariths)
  then show q: "unat q = (unat p + unat r) div 2"
    by (simp add: q_def unat_div)
  with lt show "p \<le> q" "q < r"
    by (simp_all add: word_le_nat_alt word_less_nat_alt)
  then show "unat (q + 1) = Suc (unat q)"
    by (simp add: word_succ_unat)
qed

lemma merge_sort_spec:
  assumes "A = pre @ mid @ post" "length pre = unat p" "length mid = Suc (unat r - unat p)"
    "p \<le> r" "length A < 2 ^ 63" "\<forall>x\<in>set mid. x \<noteq> INT_MAX"
  shows "\<exists>X. merge_sort A p r = Some (Inr (pre @ X @ post)) \<and> mset X = mset mid \<and>
              sorted (map sint X)"
  using assms
proof (induction "unat r - unat p" arbitrary: A pre mid post p r rule: less_induct)
  case less
  show ?case
  proof (cases "p < r")
    case False
    with less.prems have "unat r - unat p = 0"
      by (simp add: word_less_nat_alt)
    with less.prems obtain x where "mid = [x]"
      by (cases mid) simp_all
    with False less.prems show ?thesis
      by (subst merge_sort.simps) simp
  next
    case True
    define q where "q = (p + r) div 2"
    from less.prems have lenA: "length A = unat p + Suc (unat r - unat p) + length post"
      by simp
    from less.prems have pr: "unat p \<le> unat r"
      by (simp add: word_le_nat_alt)
    with lenA less.prems have r: "unat r < 2 ^ 63"
      by simp
    note mp = mid_point [OF True r, folded q_def]
    from mp(2,3) have pq: "unat p \<le> unat q" and qr: "unat q < unat r"
      by (simp_all add: word_le_nat_alt word_less_nat_alt)
    note q1 = mp(4)
    define xs ys where "xs = take (Suc (unat q - unat p)) mid" and "ys = drop (Suc (unat q - unat p)) mid"
    have mid: "mid = xs @ ys"
      by (simp add: xs_def ys_def)
    have lxs: "length xs = Suc (unat q - unat p)"
      using less.prems pq qr by (simp add: xs_def)
    have lys: "length ys = Suc (unat r - unat (q + 1))"
      using less.prems pq qr by (simp add: ys_def q1)
    have nm: "\<forall>x\<in>set xs. x \<noteq> INT_MAX" "\<forall>y\<in>set ys. y \<noteq> INT_MAX"
      using less.prems(6) by (simp_all add: mid)
    have "\<exists>X. merge_sort A p q = Some (Inr (pre @ X @ ys @ post)) \<and> mset X = mset xs \<and>
              sorted (map sint X)"
      using less.prems pq qr mp(2) nm lxs
      by (intro less.hyps) (simp_all add: mid)
    then obtain X1 where s1: "merge_sort A p q = Some (Inr (pre @ X1 @ ys @ post))"
      and m1: "mset X1 = mset xs" and o1: "sorted (map sint X1)"
      by blast
    from m1 have l1: "length X1 = length xs"
      by (rule mset_eq_length)
    from m1 have e1: "set X1 = set xs"
      by (rule mset_eq_setD)
    have "\<exists>X. merge_sort (pre @ X1 @ ys @ post) (q + 1) r = Some (Inr ((pre @ X1) @ X @ post)) \<and>
              mset X = mset ys \<and> sorted (map sint X)"
      using less.prems pq qr q1 nm lys l1 lxs
      by (intro less.hyps) (simp_all add: mid word_le_nat_alt)
    then obtain X2 where s2: "merge_sort (pre @ X1 @ ys @ post) (q + 1) r = Some (Inr (pre @ X1 @ X2 @ post))"
      and m2: "mset X2 = mset ys" and o2: "sorted (map sint X2)"
      by auto
    from m2 have l2: "length X2 = length ys"
      by (rule mset_eq_length)
    from m2 have e2: "set X2 = set ys"
      by (rule mset_eq_setD)
    have mg: "merge (pre @ X1 @ X2 @ post) p q r = Inr (pre @ std_merge X1 X2 @ post)"
      using less.prems pq qr q1 nm l1 l2 lxs lys e1 e2
      by (intro merge_spec) (simp_all add: mid word_le_nat_alt)
    have "merge_sort A p r = Some (Inr (pre @ std_merge X1 X2 @ post))"
      using True by (subst merge_sort.simps) (simp add: q_def [symmetric] s1 s2 mg)
    moreover have "mset (std_merge X1 X2) = mset mid"
      by (simp add: mset_std_merge m1 m2 mid)
    moreover have "sorted (map sint (std_merge X1 X2))"
      using o1 o2 by (rule sorted_std_merge)
    ultimately show ?thesis
      by blast
  qed
qed


lemma merge_sort_lazy_spec:
  assumes "A = pre @ mid @ post" "length pre = unat p" "length mid = Suc (unat r - unat p)"
    "p \<le> r" "length A < 2 ^ 63"
  shows "\<exists>X. merge_sort_lazy A p r = Some (Inr (pre @ X @ post)) \<and> mset X = mset mid \<and>
              sorted (map sint X)"
  using assms
proof (induction "unat r - unat p" arbitrary: A pre mid post p r rule: less_induct)
  case less
  show ?case
  proof (cases "p < r")
    case False
    with less.prems have "unat r - unat p = 0"
      by (simp add: word_less_nat_alt)
    with less.prems obtain x where "mid = [x]"
      by (cases mid) simp_all
    with False less.prems show ?thesis
      by (subst merge_sort_lazy.simps) simp
  next
    case True
    define q where "q = (p + r) div 2"
    from less.prems have lenA: "length A = unat p + Suc (unat r - unat p) + length post"
      by simp
    from less.prems have pr: "unat p \<le> unat r"
      by (simp add: word_le_nat_alt)
    with lenA less.prems have r: "unat r < 2 ^ 63"
      by simp
    note mp = mid_point [OF True r, folded q_def]
    from mp(2,3) have pq: "unat p \<le> unat q" and qr: "unat q < unat r"
      by (simp_all add: word_le_nat_alt word_less_nat_alt)
    note q1 = mp(4)
    define xs ys where "xs = take (Suc (unat q - unat p)) mid" and "ys = drop (Suc (unat q - unat p)) mid"
    have mid: "mid = xs @ ys"
      by (simp add: xs_def ys_def)
    have lxs: "length xs = Suc (unat q - unat p)"
      using less.prems pq qr by (simp add: xs_def)
    have lys: "length ys = Suc (unat r - unat (q + 1))"
      using less.prems pq qr by (simp add: ys_def q1)
    have "\<exists>X. merge_sort_lazy A p q = Some (Inr (pre @ X @ ys @ post)) \<and> mset X = mset xs \<and>
              sorted (map sint X)"
      using less.prems pq qr mp(2) lxs
      by (intro less.hyps) (simp_all add: mid)
    then obtain X1 where s1: "merge_sort_lazy A p q = Some (Inr (pre @ X1 @ ys @ post))"
      and m1: "mset X1 = mset xs" and o1: "sorted (map sint X1)"
      by blast
    from m1 have l1: "length X1 = length xs"
      by (rule mset_eq_length)
    have "\<exists>X. merge_sort_lazy (pre @ X1 @ ys @ post) (q + 1) r = Some (Inr ((pre @ X1) @ X @ post)) \<and>
              mset X = mset ys \<and> sorted (map sint X)"
      using less.prems pq qr q1 lys l1 lxs
      by (intro less.hyps) (simp_all add: mid word_le_nat_alt)
    then obtain X2 where s2: "merge_sort_lazy (pre @ X1 @ ys @ post) (q + 1) r = Some (Inr (pre @ X1 @ X2 @ post))"
      and m2: "mset X2 = mset ys" and o2: "sorted (map sint X2)"
      by auto
    from m2 have l2: "length X2 = length ys"
      by (rule mset_eq_length)
    have mg: "merge_lazy (pre @ X1 @ X2 @ post) p q r = Inr (pre @ std_merge X1 X2 @ post)"
      using less.prems pq qr q1 l1 l2 lxs lys
      by (intro merge_lazy_spec) (simp_all add: mid word_le_nat_alt)
    have "merge_sort_lazy A p r = Some (Inr (pre @ std_merge X1 X2 @ post))"
      using True by (subst merge_sort_lazy.simps) (simp add: q_def [symmetric] s1 s2 mg)
    moreover have "mset (std_merge X1 X2) = mset mid"
      by (simp add: mset_std_merge m1 m2 mid)
    moreover have "sorted (map sint (std_merge X1 X2))"
      using o1 o2 by (rule sorted_std_merge)
    ultimately show ?thesis
      by blast
  qed
qed


subsection \<open>What a returning call leaves alone\<close>

lemma size_v_bound: "n < size_v v \<Longrightarrow> unat n < length v"
proof -
  assume "n < size_v v"
  then have "unat n < unat (size_v v)"
    by (simp add: word_less_nat_alt)
  also have "\<dots> \<le> length v"
    by (simp add: size_v_def unat_of_nat)
  finally show ?thesis .
qed

lemma scan_step_frame:
  assumes "scan_step L R s = Inr s'"
  shows "sk s < size_v (sA s)" "sk s' = sk s + 1" "length (sA s') = length (sA s)"
    "n \<noteq> unat (sk s) \<Longrightarrow> sA s' ! n = sA s ! n"
  using assms
  by (auto simp: scan_step_def vec_get_def vec_set_def split: sum.splits if_splits)

lemma scan_frame:
  "scan L R r s = Inr s' \<Longrightarrow>
   length (sA s') = length (sA s) \<and> (\<forall>n. n < unat (sk s) \<or> unat r < n \<longrightarrow> sA s' ! n = sA s ! n)"
proof (induction L R r s rule: scan.induct)
  case (1 L R r s)
  show ?case
  proof (cases "sk s \<le> r")
    case False
    with "1.prems" show ?thesis
      by (subst (asm) scan.simps) auto
  next
    case True
    with "1.prems" obtain s1 where step: "scan_step L R s = Inr s1" and rest: "scan L R r s1 = Inr s'"
      by (subst (asm) scan.simps) (auto split: sum.splits)
    note f = scan_step_frame [OF step]
    from f(1,2) have k1: "unat (sk s1) = Suc (unat (sk s))"
      by (simp add: word_succ_unat)
    from True have kr: "unat (sk s) \<le> unat r"
      by (simp add: word_le_nat_alt)
    from "1.IH" [OF True step rest] f(3,4) k1 kr show ?thesis
      by auto
  qed
qed

lemma scan_reaches:
  "scan L R r s = Inr s' \<Longrightarrow> sk s \<le> r \<Longrightarrow> r < size_v (sA s)"
proof (induction L R r s rule: scan.induct)
  case (1 L R r s)
  from "1.prems" obtain s1 where step: "scan_step L R s = Inr s1" and rest: "scan L R r s1 = Inr s'"
    by (subst (asm) scan.simps) (auto split: sum.splits)
  note f = scan_step_frame [OF step]
  show ?case
  proof (cases "sk s = r")
    case True
    with f(1) show ?thesis by simp
  next
    case False
    with "1.prems"(2) have lt: "sk s < r"
      by simp
    then have "unat (sk s + 1) = Suc (unat (sk s))"
      by (rule word_succ_unat)
    with lt f(2) have "sk s1 \<le> r"
      by (simp add: word_le_nat_alt word_less_nat_alt)
    from "1.IH" [OF "1.prems"(2) step rest this] f(3) show ?thesis
      by (simp add: size_v_def)
  qed
qed

lemma merge_frame:
  assumes "merge A p q r = Inr A'"
  shows "length A' = length A" "n < unat p \<or> unat r < n \<Longrightarrow> A' ! n = A ! n"
    "p \<le> r \<Longrightarrow> unat r < length A"
proof -
  from assms obtain L R s' where sc: "scan L R r \<lparr>sA = A, si = 0, sj = 0, sk = p\<rparr> = Inr s'"
    and A': "A' = sA s'"
    by (auto simp: merge_def split: sum.splits prod.splits)
  from scan_frame [OF sc] A' show "length A' = length A"
    and "n < unat p \<or> unat r < n \<Longrightarrow> A' ! n = A ! n"
    by auto
  assume "p \<le> r"
  with scan_reaches [OF sc] show "unat r < length A"
    by (simp add: size_v_bound)
qed

lemma copy_back_frame:
  "copy_back A B fin sa sb = Inr A' \<Longrightarrow> sa \<le> fin \<Longrightarrow>
   length A' = length A \<and> (\<forall>n. n < unat sa \<or> unat fin \<le> n \<longrightarrow> A' ! n = A ! n)"
proof (induction A B fin sa sb rule: copy_back.induct)
  case (1 A B fin sa sb)
  show ?case
  proof (cases "sa \<noteq> fin \<and> sb \<noteq> size_v B")
    case False
    with "1.prems" show ?thesis
      by (subst (asm) copy_back.simps) auto
  next
    case True
    with "1.prems" obtain x A1 where g: "vec_get B sb = Inr x" and p: "vec_set A sa x = Inr A1"
      and rest: "copy_back A1 B fin (sa + 1) (sb + 1) = Inr A'"
      by (subst (asm) copy_back.simps) (auto split: sum.splits)
    from True "1.prems"(2) have lt: "sa < fin"
      by (simp add: order_less_le)
    then have s1: "unat (sa + 1) = Suc (unat sa)"
      by (rule word_succ_unat)
    with lt have le: "sa + 1 \<le> fin"
      by (simp add: word_le_nat_alt word_less_nat_alt)
    from p have A1: "A1 = A[unat sa := x]"
      by (simp add: vec_set_def split: if_splits)
    from lt have "unat sa < unat fin"
      by (simp add: word_less_nat_alt)
    with "1.IH" [OF True g p rest le] A1 s1 show ?thesis
      by auto
  qed
qed

lemma merge_lazy_frame:
  assumes "merge_lazy A p q r = Inr A'"
  shows "length A' = length A" "n < unat p \<or> unat r < n \<Longrightarrow> A' ! n = A ! n"
    "q + 1 \<noteq> 0 \<Longrightarrow> unat r < length A"
proof -
  from assms obtain B where le: "p \<le> q + 1" "q + 1 \<le> r + 1" and r1: "r + 1 \<le> size_v A"
    and cb: "copy_back A B (r + 1) p 0 = Inr A'"
    by (auto simp: merge_lazy_def std_next_def std_merge_into_def Let_def
             split: sum.splits if_splits)
  from le have "p \<le> r + 1"
    by simp
  note f = copy_back_frame [OF cb this]
  have "unat (r + 1) \<le> Suc (unat r)"
    by (simp add: unat_word_ariths)
  with f show "length A' = length A" and "n < unat p \<or> unat r < n \<Longrightarrow> A' ! n = A ! n"
    by auto
  assume "q + 1 \<noteq> 0"
  with le(2) have "r + 1 \<noteq> 0"
    by auto
  then have "r < r + 1"
    by (metis (no_types, lifting) add.commute add_cancel_right_left inc_le
        olen_add_eqv word_le_less_eq zero_neq_one)
  also note r1
  finally show "unat r < length A"
    by (rule size_v_bound)
qed

lemma bind_sum_Inr:
  "Option.bind m (\<lambda>r. case r of Inl e \<Rightarrow> Some (Inl e) | Inr a \<Rightarrow> f a) = Some (Inr y) \<longleftrightarrow>
   (\<exists>a. m = Some (Inr a) \<and> f a = Some (Inr y))"
  by (cases m) (auto split: sum.splits)

lemma half_succ_nonzero: "(x div 2 + 1 :: size_t) \<noteq> 0"
proof -
  have "unat x < 2 ^ 64"
    using unsigned_less [of x] by simp
  then have "unat (x div 2) < 2 ^ 63"
    by (simp add: unat_div)
  then have "unat (x div 2 + 1) = Suc (unat (x div 2))"
    by (simp add: unat_word_ariths)
  then show ?thesis
    by (metis Zero_not_Suc unsigned_0)
qed

lemma merge_sort_frame:
  assumes "merge_sort A p r = Some (Inr A')" "length A < 2 ^ 63"
  shows "length A' = length A \<and> (\<forall>n. n < unat p \<or> unat r < n \<longrightarrow> A' ! n = A ! n)"
proof -
  let ?P = "\<lambda>(A :: cint list) (p :: size_t) (r :: size_t) (y :: error + cint list). length A < 2 ^ 63 \<longrightarrow> (\<forall>A'. y = Inr A' \<longrightarrow>
          length A' = length A \<and> (\<forall>n. n < unat p \<or> unat r < n \<longrightarrow> A' ! n = A ! n))"
  have "?P A p r (Inr A')"
  proof (rule merge_sort.raw_induct [where P = ?P, OF _ assms(1)], goal_cases)
    case (1 ms A p r y)
    note IH = "1"(1) and eq = "1"(2)
    show ?case
    proof (intro impI allI)
      fix A' assume len: "length A < 2 ^ 63" and y: "y = Inr A'"
      show "length A' = length A \<and> (\<forall>n. n < unat p \<or> unat r < n \<longrightarrow> A' ! n = A ! n)"
      proof (cases "p < r")
        case False
        with eq y show ?thesis
          by simp
      next
        case True
        define q where "q = (p + r) div 2"
        from eq True y obtain A1 A2 where s1: "ms A p q = Some (Inr A1)"
          and s2: "ms A1 (q + 1) r = Some (Inr A2)" and mg: "merge A2 p q r = Inr A'"
          by (auto simp: q_def Let_def bind_sum_Inr)
        from IH [OF s1] len
        have f1: "length A1 = length A" "\<And>n. n < unat p \<or> unat q < n \<Longrightarrow> A1 ! n = A ! n"
          by auto
        from IH [OF s2] len f1(1)
        have f2: "length A2 = length A" "\<And>n. n < unat (q + 1) \<or> unat r < n \<Longrightarrow> A2 ! n = A1 ! n"
          by auto
        note f3 = merge_frame [OF mg]
        from True have "p \<le> r"
          by simp
        from f3(3) [OF this] f2(1) len have "unat r < 2 ^ 63"
          by simp
        note mp = mid_point [OF True this, folded q_def]
        from mp(2,3) have pq: "unat p \<le> unat q" "unat q < unat r"
          by (simp_all add: word_le_nat_alt word_less_nat_alt)
        show ?thesis
        proof (intro conjI allI impI)
          show "length A' = length A"
            by (simp add: f3(1) f2(1))
        next
          fix n assume n: "n < unat p \<or> unat r < n"
          then have "A' ! n = A2 ! n"
            by (rule f3(2))
          also from n pq have "A2 ! n = A1 ! n"
            by (intro f2(2)) (auto simp: mp(4))
          also from n pq have "A1 ! n = A ! n"
            by (intro f1(2)) auto
          finally show "A' ! n = A ! n" .
        qed
      qed
    qed
  qed
  with assms(2) show ?thesis
    by simp
qed


lemma merge_sort_lazy_frame:
  assumes "merge_sort_lazy A p r = Some (Inr A')" "length A < 2 ^ 63"
  shows "length A' = length A \<and> (\<forall>n. n < unat p \<or> unat r < n \<longrightarrow> A' ! n = A ! n)"
proof -
  let ?P = "\<lambda>(A :: cint list) (p :: size_t) (r :: size_t) (y :: error + cint list). length A < 2 ^ 63 \<longrightarrow> (\<forall>A'. y = Inr A' \<longrightarrow>
          length A' = length A \<and> (\<forall>n. n < unat p \<or> unat r < n \<longrightarrow> A' ! n = A ! n))"
  have "?P A p r (Inr A')"
  proof (rule merge_sort_lazy.raw_induct [where P = ?P, OF _ assms(1)], goal_cases)
    case (1 ms A p r y)
    note IH = "1"(1) and eq = "1"(2)
    show ?case
    proof (intro impI allI)
      fix A' assume len: "length A < 2 ^ 63" and y: "y = Inr A'"
      show "length A' = length A \<and> (\<forall>n. n < unat p \<or> unat r < n \<longrightarrow> A' ! n = A ! n)"
      proof (cases "p < r")
        case False
        with eq y show ?thesis
          by simp
      next
        case True
        define q where "q = (p + r) div 2"
        from eq True y obtain A1 A2 where s1: "ms A p q = Some (Inr A1)"
          and s2: "ms A1 (q + 1) r = Some (Inr A2)" and mg: "merge_lazy A2 p q r = Inr A'"
          by (auto simp: q_def Let_def bind_sum_Inr)
        from IH [OF s1] len
        have f1: "length A1 = length A" "\<And>n. n < unat p \<or> unat q < n \<Longrightarrow> A1 ! n = A ! n"
          by auto
        from IH [OF s2] len f1(1)
        have f2: "length A2 = length A" "\<And>n. n < unat (q + 1) \<or> unat r < n \<Longrightarrow> A2 ! n = A1 ! n"
          by auto
        note f3 = merge_lazy_frame [OF mg]
        have "q + 1 \<noteq> 0"
          unfolding q_def by (rule half_succ_nonzero)
        from f3(3) [OF this] f2(1) len have "unat r < 2 ^ 63"
          by simp
        note mp = mid_point [OF True this, folded q_def]
        from mp(2,3) have pq: "unat p \<le> unat q" "unat q < unat r"
          by (simp_all add: word_le_nat_alt word_less_nat_alt)
        show ?thesis
        proof (intro conjI allI impI)
          show "length A' = length A"
            by (simp add: f3(1) f2(1))
        next
          fix n assume n: "n < unat p \<or> unat r < n"
          then have "A' ! n = A2 ! n"
            by (rule f3(2))
          also from n pq have "A2 ! n = A1 ! n"
            by (intro f2(2)) (auto simp: mp(4))
          also from n pq have "A1 ! n = A ! n"
            by (intro f1(2)) auto
          finally show "A' ! n = A ! n" .
        qed
      qed
    qed
  qed
  with assms(2) show ?thesis
    by simp
qed


subsection \<open>Returning\<close>

lemma merge_sort_returns:
  assumes "p \<le> r" "unat r < length A" "length A < 2 ^ 63"
  shows "\<exists>res. merge_sort A p r = Some res"
  using assms
proof (induction "unat r - unat p" arbitrary: A p r rule: less_induct)
  case less
  show ?case
  proof (cases "p < r")
    case False
    then show ?thesis
      by (subst merge_sort.simps) simp
  next
    case True
    define q where "q = (p + r) div 2"
    from less.prems have r: "unat r < 2 ^ 63"
      by simp
    note mp = mid_point [OF True r, folded q_def]
    from mp(2,3) have pq: "unat p \<le> unat q" "unat q < unat r"
      by (simp_all add: word_le_nat_alt word_less_nat_alt)
    have "\<exists>res. merge_sort A p q = Some res"
      using less.prems pq mp(2) by (intro less.hyps) simp_all
    then obtain r1 where s1: "merge_sort A p q = Some r1"
      by blast
    show ?thesis
    proof (cases r1)
      case (Inl e)
      with True s1 show ?thesis
        by (subst merge_sort.simps) (simp add: q_def [symmetric])
    next
      case (Inr A1)
      with s1 less.prems have len1: "length A1 = length A"
        by (simp add: merge_sort_frame)
      have "\<exists>res. merge_sort A1 (q + 1) r = Some res"
        using less.prems pq mp(4) len1
        by (intro less.hyps) (simp_all add: word_le_nat_alt)
      then obtain r2 where s2: "merge_sort A1 (q + 1) r = Some r2"
        by blast
      with True s1 Inr show ?thesis
        by (subst merge_sort.simps) (simp add: q_def [symmetric] split: sum.splits)
    qed
  qed
qed

subsection \<open>Ranges\<close>

lemma range_decomp:
  assumes "unat p \<le> unat q" "unat q \<le> unat r" "unat r < length A"
  shows "A = take (unat p) A @ take (Suc (unat q - unat p)) (drop (unat p) A) @
             take (unat r - unat q) (drop (Suc (unat q)) A) @ drop (Suc (unat r)) A"
proof -
  have "drop (Suc (unat q - unat p)) (drop (unat p) A) = drop (Suc (unat q)) A"
    using assms by simp
  then have "drop (unat p) A = take (Suc (unat q - unat p)) (drop (unat p) A) @ drop (Suc (unat q)) A"
    by (metis append_take_drop_id)
  moreover have "drop (unat r - unat q) (drop (Suc (unat q)) A) = drop (Suc (unat r)) A"
    using assms by simp
  then have "drop (Suc (unat q)) A = take (unat r - unat q) (drop (Suc (unat q)) A) @ drop (Suc (unat r)) A"
    by (metis append_take_drop_id)
  ultimately show ?thesis
    by (metis append_take_drop_id)
qed

lemma scan_inv_writes_element:
  assumes inv: "scan_inv xs ys r s" and run: "sk s \<le> r"
    and xs: "\<forall>x\<in>set xs. x \<noteq> INT_MAX"
    and ys: "\<forall>y\<in>set ys. y \<noteq> INT_MAX"
  shows "if sint ((xs @ [INT_MAX]) ! unat (si s)) \<le> sint ((ys @ [INT_MAX]) ! unat (sj s))
         then unat (si s) < length xs else unat (sj s) < length ys"
proof -
  define i j where "i = unat (si s)" and "j = unat (sj s)"
  have i: "i \<le> length xs" and j: "j \<le> length ys"
    and sum: "unat (sk s) + (length xs - i) + (length ys - j) = Suc (unat r)"
    using inv unfolding scan_inv_def i_def j_def by blast+
  from run have "unat (sk s) \<le> unat r"
    by (simp add: word_le_nat_alt)
  with sum have rest: "i < length xs \<or> j < length ys"
    by arith
  show ?thesis
  proof (cases "i < length xs")
    case True
    show ?thesis
    proof (cases "j < length ys")
      case True
      with \<open>i < length xs\<close> show ?thesis
        by (simp add: i_def [symmetric] j_def [symmetric])
    next
      case False
      with j have "j = length ys"
        by simp
      with True show ?thesis
        by (simp add: i_def [symmetric] j_def [symmetric] nth_append sint_le_INT_MAX)
    qed
  next
    case False
    with i rest have il: "i = length xs" and jl: "j < length ys"
      by simp_all
    from jl ys have "ys ! j \<noteq> INT_MAX"
      by simp
    then have "\<not> sint INT_MAX \<le> sint (ys ! j)"
      by (simp add: below_INT_MAX [symmetric])
    with il jl show ?thesis
      by (simp add: i_def [symmetric] j_def [symmetric] nth_append)
  qed
qed

lemma sub_range_middle:
  assumes "A = pre @ mid @ post" "length pre = unat p" "length mid = Suc (unat r) - unat p"
  shows "sub_range A p r = mid"
  using assms by (simp add: sub_range_def)

lemma sub_range_split:
  assumes "unat p \<le> unat q" "unat q \<le> unat r"
  shows "sub_range A p r =
         take (Suc (unat q - unat p)) (drop (unat p) A) @ take (unat r - unat q) (drop (Suc (unat q)) A)"
proof -
  have "Suc (unat r) - unat p = Suc (unat q - unat p) + (unat r - unat q)"
    using assms by arith
  moreover have "drop (Suc (unat q - unat p)) (drop (unat p) A) = drop (Suc (unat q)) A"
    using assms by simp
  ultimately show ?thesis
    unfolding sub_range_def by (simp only: take_add)
qed

lemma unat_size_v_pred:
  assumes "S \<noteq> []" "length S < 2 ^ 63"
  shows "unat (size_v S - 1) = length S - 1"
proof -
  from assms have "0 < length S" "length S < 2 ^ 64"
    by simp_all
  then have "unat (size_v S) = length S" "1 \<le> size_v S"
    by (simp_all add: unat_size_v word_le_nat_alt Suc_leI)
  then show ?thesis
    by (simp add: unat_sub)
qed

lemma range_parts:
  assumes "p \<le> q" "q \<le> r" "unat r < length A" "length A < 2 ^ 63"
  obtains pre xs ys post where "A = pre @ xs @ ys @ post" "length pre = unat p"
    "length xs = Suc (unat q - unat p)" "length ys = unat r - unat q"
    "sub_range A p q = xs" "sub_range A (q + 1) r = ys" "sub_range A p r = xs @ ys"
proof -
  define pre xs ys post where "pre = take (unat p) A"
    and "xs = take (Suc (unat q - unat p)) (drop (unat p) A)"
    and "ys = take (unat r - unat q) (drop (Suc (unat q)) A)"
    and "post = drop (Suc (unat r)) A"
  from assms have le: "unat p \<le> unat q" "unat q \<le> unat r"
    by (simp_all add: word_le_nat_alt)
  from le assms have q1: "unat (q + 1) = Suc (unat q)"
    by (simp add: unat_word_ariths)
  have "A = pre @ xs @ ys @ post"
    unfolding pre_def xs_def ys_def post_def using le assms(3) by (rule range_decomp)
  moreover have "length pre = unat p" "length xs = Suc (unat q - unat p)"
    "length ys = unat r - unat q"
    using le assms(3) by (simp_all add: pre_def xs_def ys_def)
  moreover have "sub_range A p q = xs" "sub_range A (q + 1) r = ys"
    using le by (simp_all add: sub_range_def xs_def ys_def q1 Suc_diff_le)
  moreover have "sub_range A p r = xs @ ys"
    unfolding xs_def ys_def using le by (rule sub_range_split)
  ultimately show thesis
    by (rule that)
qed

lemma merge_sort_eq_lazy_parts:
  assumes "A = pre @ mid @ post" "length pre = unat p" "length mid = Suc (unat r - unat p)"
    "p \<le> r" "length A < 2 ^ 63" "\<forall>x\<in>set mid. x \<noteq> INT_MAX"
  shows "merge_sort A p r = merge_sort_lazy A p r"
  using assms
proof (induction "unat r - unat p" arbitrary: A pre mid post p r rule: less_induct)
  case less
  show ?case
  proof (cases "p < r")
    case False
    then show ?thesis
      by (subst merge_sort.simps, subst merge_sort_lazy.simps) simp
  next
    case True
    define q where "q = (p + r) div 2"
    from less.prems have lenA: "length A = unat p + Suc (unat r - unat p) + length post"
      by simp
    from less.prems have pr: "unat p \<le> unat r"
      by (simp add: word_le_nat_alt)
    with lenA less.prems have r: "unat r < 2 ^ 63"
      by simp
    note mp = mid_point [OF True r, folded q_def]
    from mp(2,3) have pq: "unat p \<le> unat q" and qr: "unat q < unat r"
      by (simp_all add: word_le_nat_alt word_less_nat_alt)
    note q1 = mp(4)
    define xs ys where "xs = take (Suc (unat q - unat p)) mid" and "ys = drop (Suc (unat q - unat p)) mid"
    have mid: "mid = xs @ ys"
      by (simp add: xs_def ys_def)
    have lxs: "length xs = Suc (unat q - unat p)"
      using less.prems pq qr by (simp add: xs_def)
    have lys: "length ys = Suc (unat r - unat (q + 1))"
      using less.prems pq qr by (simp add: ys_def q1)
    have nm: "\<forall>x\<in>set xs. x \<noteq> INT_MAX" "\<forall>y\<in>set ys. y \<noteq> INT_MAX"
      using less.prems(6) by (simp_all add: mid)
    have A1: "A = pre @ xs @ (ys @ post)"
      using less.prems(1) by (simp add: mid)
    have e1: "merge_sort A p q = merge_sort_lazy A p q"
      using less.prems pq qr mp(2) nm lxs
      by (intro less.hyps [where mid = xs and pre = pre and post = "ys @ post"]) (simp_all add: mid)
    from merge_sort_spec [OF A1 less.prems(2) lxs mp(2) less.prems(5) nm(1)]
    obtain X1 where s1: "merge_sort A p q = Some (Inr (pre @ X1 @ ys @ post))"
      and m1: "mset X1 = mset xs"
      by auto
    from m1 have l1: "length X1 = length xs"
      by (rule mset_eq_length)
    from m1 have "set X1 = set xs"
      by (rule mset_eq_setD)
    with nm(1) have n1: "\<forall>x\<in>set X1. x \<noteq> INT_MAX"
      by simp
    have A2: "pre @ X1 @ ys @ post = (pre @ X1) @ ys @ post"
      by simp
    have l2: "length (pre @ X1) = unat (q + 1)"
      using less.prems(2) pq by (simp add: l1 lxs q1)
    have len2: "length (pre @ X1 @ ys @ post) < 2 ^ 63"
      using less.prems(1,5) by (simp add: l1 mid)
    have qr': "q + 1 \<le> r"
      using qr by (simp add: word_le_nat_alt q1)
    have e2: "merge_sort (pre @ X1 @ ys @ post) (q + 1) r = merge_sort_lazy (pre @ X1 @ ys @ post) (q + 1) r"
      using pq qr pr
      by (intro less.hyps [OF _ A2 l2 lys qr' len2 nm(2)]) (simp add: q1)
    from merge_sort_spec [OF A2 l2 lys qr' len2 nm(2)]
    obtain X2 where s2: "merge_sort (pre @ X1 @ ys @ post) (q + 1) r = Some (Inr (pre @ X1 @ X2 @ post))"
      and m2: "mset X2 = mset ys"
      by auto
    from m2 have l2': "length X2 = length ys"
      by (rule mset_eq_length)
    from m2 have "set X2 = set ys"
      by (rule mset_eq_setD)
    with nm(2) have n2: "\<forall>x\<in>set X2. x \<noteq> INT_MAX"
      by simp
    have len3: "length (pre @ X1 @ X2 @ post) < 2 ^ 63"
      using len2 by (simp add: l2')
    have lys': "length X2 = unat r - unat q"
      using qr by (simp add: l2' lys q1)
    have lxs': "length X1 = Suc (unat q - unat p)"
      by (simp add: l1 lxs)
    have qr'': "q \<le> r"
      using mp(3) by simp
    have mg: "merge (pre @ X1 @ X2 @ post) p q r = merge_lazy (pre @ X1 @ X2 @ post) p q r"
      using merge_spec [OF refl less.prems(2) lxs' lys' mp(2) qr'' len3 n1 n2]
        merge_lazy_spec [OF refl less.prems(2) lxs' lys' mp(2) qr'' len3]
      by simp
    have "merge_sort A p r = Some (merge (pre @ X1 @ X2 @ post) p q r)"
      using True by (subst merge_sort.simps) (simp add: q_def [symmetric] s1 s2)
    moreover have "merge_sort_lazy A p r = Some (merge_lazy (pre @ X1 @ X2 @ post) p q r)"
      using True
      by (subst merge_sort_lazy.simps)
         (simp add: q_def [symmetric] s1 [unfolded e1] s2 [unfolded e2])
    ultimately show ?thesis
      by (simp add: mg)
  qed
qed

section \<open>The sentinel merge below \<open>INT_MAX\<close>\<close>

text \<open>
  What does hold of the sentinel merge: on in-range indices, when no element of
  \<open>A[p..r]\<close> is \<open>INT_MAX\<close>, it returns what \<open>merge_lazy\<close> returns, a permutation of \<open>A\<close>
  whose range \<open>[p..r]\<close> is in non-decreasing order if the two halves were.
\<close>

lemma merge_below_INT_MAX:
  assumes "p \<le> q" "q \<le> r" "unat r < length A" "length A < 2 ^ 63"
    and "\<forall>x\<in>set (sub_range A p r). x \<noteq> INT_MAX"
  shows "\<exists>A'. merge A p q r = Inr A' \<and> merge_lazy A p q r = Inr A' \<and> mset A' = mset A \<and>
           (non_decreasing (sub_range A p q) \<and> non_decreasing (sub_range A (q + 1) r) \<longrightarrow>
            non_decreasing (sub_range A' p r))"
proof -
  from assms(1-4) obtain pre xs ys post where A: "A = pre @ xs @ ys @ post"
    and l: "length pre = unat p" "length xs = Suc (unat q - unat p)" "length ys = unat r - unat q"
    and s: "sub_range A p q = xs" "sub_range A (q + 1) r = ys" "sub_range A p r = xs @ ys"
    by (rule range_parts)
  from assms(5) s(3) have n: "\<forall>x\<in>set xs. x \<noteq> INT_MAX" "\<forall>y\<in>set ys. y \<noteq> INT_MAX"
    by simp_all
  from assms(1,2) have le: "unat p \<le> unat q" "unat q \<le> unat r"
    by (simp_all add: word_le_nat_alt)
  have sr: "sub_range (pre @ std_merge xs ys @ post) p r = std_merge xs ys"
    by (rule sub_range_middle [where pre = pre and post = post])
       (use le l in \<open>simp_all add: length_std_merge\<close>)
  have mg: "merge A p q r = Inr (pre @ std_merge xs ys @ post)"
    by (rule merge_spec [OF A l assms(1,2,4) n])
  have lz: "merge_lazy A p q r = Inr (pre @ std_merge xs ys @ post)"
    by (rule merge_lazy_spec [OF A l assms(1,2,4)])
  have m: "mset (pre @ std_merge xs ys @ post) = mset A"
    using A by (simp add: mset_std_merge)
  have o: "non_decreasing xs \<and> non_decreasing ys \<longrightarrow> non_decreasing (std_merge xs ys)"
    by (simp add: non_decreasing_def sorted_std_merge)
  from mg lz m o show ?thesis
    by (simp add: sr s(1,2))
qed

text \<open>
  Under the same conditions the scan makes \<open>r - p + 1\<close> iterations, each with one
  write (the trace has one state more), and the two sorts return the same.
\<close>

lemma merge_scan_writes:
  assumes "p \<le> q" "q \<le> r" "unat r < length A" "length A < 2 ^ 63"
    and "\<forall>x\<in>set (sub_range A p r). x \<noteq> INT_MAX"
  shows "\<exists>tr. merge_trace A p q r = Inr tr \<and> length tr = Suc (unat (r - p + 1))"
proof -
  from assms(1-4) obtain pre xs ys post where A: "A = pre @ xs @ ys @ post"
    and l: "length pre = unat p" "length xs = Suc (unat q - unat p)" "length ys = unat r - unat q"
    and s: "sub_range A p r = xs @ ys"
    by (rule range_parts)
  from assms(5) s have n: "\<forall>x\<in>set xs. x \<noteq> INT_MAX" "\<forall>y\<in>set ys. y \<noteq> INT_MAX"
    by simp_all
  from assms(1,2) have "p \<le> r"
    by simp
  with assms(3,4) have "unat (r - p + 1) = Suc (unat r - unat p)"
    by (simp add: unat_word_ariths unat_sub)
  with merge_trace_spec [OF A l assms(1,2,4) n] show ?thesis
    by auto
qed

lemma merge_sort_eq_lazy:
  assumes "p \<le> r" "unat r < length A" "length A < 2 ^ 63"
    and "\<forall>x\<in>set (sub_range A p r). x \<noteq> INT_MAX"
  shows "merge_sort A p r = merge_sort_lazy A p r"
proof -
  have "r \<le> r"
    by simp
  with assms(1) obtain pre xs ys post where A: "A = pre @ xs @ ys @ post"
    and l: "length pre = unat p" "length xs = Suc (unat r - unat p)" "length ys = unat r - unat r"
    and s: "sub_range A p r = xs @ ys"
    using assms(2,3) by (rule range_parts)
  from l(3) have "ys = []"
    by simp
  with A s assms(4) have "A = pre @ xs @ post" "\<forall>x\<in>set xs. x \<noteq> INT_MAX"
    by simp_all
  from this(1) l(1,2) assms(1,3) this(2) show ?thesis
    by (rule merge_sort_eq_lazy_parts)
qed

text \<open>
  One iteration of the scan, when the two heads compare equal (or the left one is
  smaller): the left head is written and the left cursor advances.
\<close>

lemma scan_step_tie_takes_left:
  assumes "vec_get L (si s) = Inr x" "vec_get R (sj s) = Inr y" "sint x \<le> sint y"
    and "vec_set (sA s) (sk s) x = Inr A'"
  shows "scan_step L R s = Inr (s\<lparr>sA := A', si := si s + 1, sk := sk s + 1\<rparr>)"
  using assms by (simp add: scan_step_def)

section \<open>The claims\<close>

text \<open>
  C1, as the code has it. For a sequence \<open>S\<close> that is not empty (and has fewer than
  \<open>2^63\<close> elements, as every \<^verbatim>\<open>vector<int>\<close> has), \<open>merge_sort_lazy S 0 (len(S) - 1)\<close>
  returns a permutation of \<open>S\<close> in non-decreasing order; so does
  \<open>merge_sort S 0 (len(S) - 1)\<close> when no element of \<open>S\<close> is \<open>INT_MAX\<close>.
\<close>

theorem sort_sorted_permutation:
  assumes "S \<noteq> []" "length S < 2 ^ 63"
  shows "((\<forall>x\<in>set S. x \<noteq> INT_MAX) \<longrightarrow>
            (\<exists>S'. merge_sort S 0 (size_v S - 1) = Some (Inr S') \<and> mset S' = mset S \<and>
                  non_decreasing S')) \<and>
         (\<exists>S'. merge_sort_lazy S 0 (size_v S - 1) = Some (Inr S') \<and> mset S' = mset S \<and>
               non_decreasing S')"
proof -
  have r: "unat (size_v S - 1) = length S - 1"
    using assms by (rule unat_size_v_pred)
  with assms have l: "length S = Suc (unat (size_v S - 1) - unat (0 :: size_t))"
    by simp
  have S: "S = [] @ S @ []"
    by simp
  from merge_sort_lazy_spec [OF S _ l _ assms(2)]
  have lazy: "\<exists>S'. merge_sort_lazy S 0 (size_v S - 1) = Some (Inr S') \<and> mset S' = mset S \<and>
               non_decreasing S'"
    by (simp add: non_decreasing_def)
  have "\<exists>S'. merge_sort S 0 (size_v S - 1) = Some (Inr S') \<and> mset S' = mset S \<and>
               non_decreasing S'" if "\<forall>x\<in>set S. x \<noteq> INT_MAX"
    using merge_sort_spec [OF S _ l _ assms(2) that]
    by (simp add: non_decreasing_def)
  with lazy show ?thesis
    by blast
qed

theorem sort_sorted_permutation_witness:
  "[3, 1, 2 :: cint] \<noteq> [] \<and> length [3, 1, 2 :: cint] < 2 ^ 63 \<and>
   list_all (\<lambda>x. x \<noteq> INT_MAX) [3, 1, 2] \<and>
   (\<exists>S'. merge_sort [3, 1, 2] 0 (size_v [3, 1, 2 :: cint] - 1) = Some (Inr S') \<and>
         mset S' = mset [3, 1, 2] \<and> non_decreasing S') \<and>
   (\<exists>S'. merge_sort_lazy [3, 1, 2] 0 (size_v [3, 1, 2 :: cint] - 1) = Some (Inr S') \<and>
         mset S' = mset [3, 1, 2] \<and> non_decreasing S')"
  using sort_sorted_permutation [of "[3, 1, 2]"]
  by (simp add: INT_MAX_def)

text \<open>
  C1 as the claim states it fails for the empty sequence: \<open>len(S) - 1\<close> is a \<^verbatim>\<open>size_t\<close>
  and wraps to \<open>2^64 - 1\<close>, the range is not empty, and the first merge reads \<open>A[0]\<close>.
\<close>

theorem sort_empty_counterexample:
  "merge_sort [] 0 (size_v ([] :: cint list) - 1) = Some (Inl OutOfBounds) \<and>
   merge_sort_lazy [] 0 (size_v ([] :: cint list) - 1) = Some (Inl OutOfBounds)"
  by code_simp

text \<open>
  C2 at a failing input. Both halves of \<open>[2, 4, INT_MAX, INT_MAX]\<close> (split after index 1)
  are in non-decreasing order and the indices are inside the vector, but the sentinel of
  the left buffer is not greater than the elements of the right half: it is taken at
  \<open>k = 2\<close>, and at \<open>k = 3\<close> the scan reads \<open>L[3]\<close>, past the end of \<open>L\<close>.
\<close>

theorem merge_INT_MAX_out_of_bounds:
  "non_decreasing (sub_range [2, 4, INT_MAX, INT_MAX] 0 1) \<and>
   non_decreasing (sub_range [2, 4, INT_MAX, INT_MAX] 2 3) \<and>
   (3 :: size_t) < size_v [2, 4, INT_MAX, INT_MAX] \<and>
   merge [2, 4, INT_MAX, INT_MAX] 0 1 3 = Inl OutOfBounds"
  by code_simp

text \<open>
  C3 at a failing input. In \<open>merge [5, INT_MAX, INT_MAX] 0 0 2\<close> the left buffer has two
  slots, \<open>L[0] = 5\<close> and the sentinel \<open>L[1]\<close>. The scan reaches the state with \<open>i = 2\<close>
  and \<open>k = 2\<close> after two writes, and its third iteration reads \<open>L[2]\<close>.
\<close>

theorem merge_reads_past_sentinel:
  "merge_setup [5, INT_MAX, INT_MAX] 0 0 2 = Inr ([5, INT_MAX], [INT_MAX, INT_MAX, INT_MAX]) \<and>
   merge_trace [5, INT_MAX, INT_MAX] 0 0 2 =
     Inr [\<lparr>sA = [5, INT_MAX, INT_MAX], si = 0, sj = 0, sk = 0\<rparr>,
          \<lparr>sA = [5, INT_MAX, INT_MAX], si = 1, sj = 0, sk = 1\<rparr>,
          \<lparr>sA = [5, INT_MAX, INT_MAX], si = 2, sj = 0, sk = 2\<rparr>] \<and>
   vec_get [5, INT_MAX] 2 = Inl OutOfBounds \<and>
   scan_step [5, INT_MAX] [INT_MAX, INT_MAX, INT_MAX]
     \<lparr>sA = [5, INT_MAX, INT_MAX], si = 2, sj = 0, sk = 2\<rparr> = Inl OutOfBounds \<and>
   merge [5, INT_MAX, INT_MAX] 0 0 2 = Inl OutOfBounds"
  by code_simp

text \<open>
  C4, as the code has it. \<open>sort([5])\<close> under the calling convention returns \<open>[5]\<close>, and
  whenever \<open>high \<le> low\<close> the call returns the sequence as it was.
\<close>

theorem sort_base_case:
  "merge_sort [5] 0 (size_v [5 :: cint] - 1) = Some (Inr [5]) \<and>
   (r \<le> p \<longrightarrow> merge_sort A p r = Some (Inr A))"
proof
  show "merge_sort [5] 0 (size_v [5 :: cint] - 1) = Some (Inr [5])"
    by code_simp
  show "r \<le> p \<longrightarrow> merge_sort A p r = Some (Inr A)"
    by (subst merge_sort.simps) auto
qed

theorem sort_base_case_witness:
  "(0 :: size_t) \<le> 0 \<and> merge_sort [] 0 0 = Some (Inr [])"
  using sort_base_case [of 0 0 "[]"] by simp

text \<open>
  C4 as the claim states it fails for the empty sequence: under the calling convention
  \<open>high\<close> is \<open>len(S) - 1 = 2^64 - 1\<close>, so \<open>low < high\<close>, the base case is not taken, and
  the call does not return \<open>[]\<close>.
\<close>

theorem sort_empty_not_base_case:
  "(0 :: size_t) < size_v ([] :: cint list) - 1 \<and>
   merge_sort [] 0 (size_v ([] :: cint list) - 1) \<noteq> Some (Inr [])"
  by code_simp

text \<open>
  C5 at a failing input. Sorting \<open>[1, 2, INT_MAX, INT_MAX]\<close> ends in
  \<open>merge A 0 1 3\<close> with the buffers \<open>L = [1, 2, sentinel]\<close> and
  \<open>R = [INT_MAX, INT_MAX, sentinel]\<close>. At \<open>k = 2\<close> the heads \<open>L[2]\<close> and \<open>R[0]\<close> compare
  equal, and what is written is the sentinel of \<open>L\<close>, not an element: the cursor \<open>i\<close>
  goes to 3, and the next iteration reads \<open>L[3]\<close>, outside \<open>L\<close>.
\<close>

theorem sort_tie_takes_sentinel:
  "merge_setup [1, 2, INT_MAX, INT_MAX] 0 1 3 =
     Inr ([1, 2, INT_MAX], [INT_MAX, INT_MAX, INT_MAX]) \<and>
   merge_trace [1, 2, INT_MAX, INT_MAX] 0 1 3 =
     Inr [\<lparr>sA = [1, 2, INT_MAX, INT_MAX], si = 0, sj = 0, sk = 0\<rparr>,
          \<lparr>sA = [1, 2, INT_MAX, INT_MAX], si = 1, sj = 0, sk = 1\<rparr>,
          \<lparr>sA = [1, 2, INT_MAX, INT_MAX], si = 2, sj = 0, sk = 2\<rparr>,
          \<lparr>sA = [1, 2, INT_MAX, INT_MAX], si = 3, sj = 0, sk = 3\<rparr>] \<and>
   sint ([1, 2, INT_MAX] ! 2) = sint ([INT_MAX, INT_MAX, INT_MAX] ! 0) \<and>
   scan_step [1, 2, INT_MAX] [INT_MAX, INT_MAX, INT_MAX]
     \<lparr>sA = [1, 2, INT_MAX, INT_MAX], si = 2, sj = 0, sk = 2\<rparr> =
     Inr \<lparr>sA = [1, 2, INT_MAX, INT_MAX], si = 3, sj = 0, sk = 3\<rparr> \<and>
   scan_step [1, 2, INT_MAX] [INT_MAX, INT_MAX, INT_MAX]
     \<lparr>sA = [1, 2, INT_MAX, INT_MAX], si = 3, sj = 0, sk = 3\<rparr> = Inl OutOfBounds \<and>
   merge_sort [1, 2, INT_MAX, INT_MAX] 0 3 = Some (Inl OutOfBounds)"
  by code_simp

text \<open>
  C6. On a range \<open>p \<le> r < len(A)\<close> the call \<open>merge_sort A p r\<close> returns. When \<open>p < r\<close>
  the split point \<open>q = (p + r) / 2\<close> is the floor of the exact half, \<open>p \<le> q < r\<close>, and
  the two recursive ranges \<open>[p, q]\<close> and \<open>[q + 1, r]\<close> are strictly shorter than \<open>[p, r]\<close>.
\<close>

theorem merge_sort_terminates:
  assumes "p \<le> r" "unat r < length A" "length A < 2 ^ 63"
  shows "(\<exists>res. merge_sort A p r = Some res) \<and>
         (p < r \<longrightarrow>
            unat ((p + r) div 2) = (unat p + unat r) div 2 \<and>
            p \<le> (p + r) div 2 \<and> (p + r) div 2 < r \<and>
            unat ((p + r) div 2) - unat p < unat r - unat p \<and>
            unat r - unat ((p + r) div 2 + 1) < unat r - unat p)"
proof (intro conjI impI)
  show "\<exists>res. merge_sort A p r = Some res"
    using assms by (rule merge_sort_returns)
next
  assume lt: "p < r"
  from assms have r: "unat r < 2 ^ 63"
    by simp
  note mp = mid_point [OF lt r]
  from mp(2,3) have pq: "unat p \<le> unat ((p + r) div 2)" "unat ((p + r) div 2) < unat r"
    by (simp_all add: word_le_nat_alt word_less_nat_alt)
  show "unat ((p + r) div 2) = (unat p + unat r) div 2" "p \<le> (p + r) div 2" "(p + r) div 2 < r"
    by (fact mp)+
  from pq show "unat ((p + r) div 2) - unat p < unat r - unat p"
    by arith
  from pq show "unat r - unat ((p + r) div 2 + 1) < unat r - unat p"
    unfolding mp(4) by arith
qed

theorem merge_sort_terminates_witness:
  "(0 :: size_t) \<le> 2 \<and> unat (2 :: size_t) < length [3, 1, 2 :: cint] \<and>
   length [3, 1, 2 :: cint] < 2 ^ 63 \<and> (0 :: size_t) < 2 \<and>
   (\<exists>res. merge_sort [3, 1, 2] 0 2 = Some res) \<and>
   unat ((0 + 2) div 2 :: size_t) = (unat (0 :: size_t) + unat (2 :: size_t)) div 2 \<and>
   (0 :: size_t) \<le> (0 + 2) div 2 \<and> ((0 + 2) div 2 :: size_t) < 2 \<and>
   unat ((0 + 2) div 2 :: size_t) - unat (0 :: size_t) < unat (2 :: size_t) - unat (0 :: size_t) \<and>
   unat (2 :: size_t) - unat ((0 + 2) div 2 + 1 :: size_t) < unat (2 :: size_t) - unat (0 :: size_t)"
  using merge_sort_terminates [of 0 2 "[3, 1, 2]"] by simp

text \<open>
  C7. When \<open>merge\<close>, \<open>merge_lazy\<close>, \<open>merge_sort\<close> or \<open>merge_sort_lazy\<close> returns, the
  vector has the length it had, and every element at an index below \<open>low\<close> or above
  \<open>high\<close> is the one that was there before the call.
\<close>

theorem outside_range_untouched:
  "(merge A p q r = Inr A' \<longrightarrow> unchanged_outside A A' p r) \<and>
   (merge_lazy A p q r = Inr A' \<longrightarrow> unchanged_outside A A' p r) \<and>
   (length A < 2 ^ 63 \<and> merge_sort A p r = Some (Inr A') \<longrightarrow> unchanged_outside A A' p r) \<and>
   (length A < 2 ^ 63 \<and> merge_sort_lazy A p r = Some (Inr A') \<longrightarrow> unchanged_outside A A' p r)"
proof (intro conjI impI)
  assume "merge A p q r = Inr A'"
  from merge_frame(1,2) [OF this] show "unchanged_outside A A' p r"
    by (simp add: unchanged_outside_def)
next
  assume "merge_lazy A p q r = Inr A'"
  from merge_lazy_frame(1,2) [OF this] show "unchanged_outside A A' p r"
    by (simp add: unchanged_outside_def)
next
  assume "length A < 2 ^ 63 \<and> merge_sort A p r = Some (Inr A')"
  then show "unchanged_outside A A' p r"
    using merge_sort_frame [of A p r A'] by (simp add: unchanged_outside_def)
next
  assume "length A < 2 ^ 63 \<and> merge_sort_lazy A p r = Some (Inr A')"
  then show "unchanged_outside A A' p r"
    using merge_sort_lazy_frame [of A p r A'] by (simp add: unchanged_outside_def)
qed

theorem outside_range_untouched_witness:
  "merge [9, 1, 3, 2, 7] 1 2 3 = Inr [9, 1, 2, 3, 7] \<and>
   merge_lazy [9, 1, 3, 2, 7] 1 2 3 = Inr [9, 1, 2, 3, 7] \<and>
   length [9, 1, 3, 2, 7 :: cint] < 2 ^ 63 \<and>
   merge_sort [9, 1, 3, 2, 7] 1 3 = Some (Inr [9, 1, 2, 3, 7]) \<and>
   merge_sort_lazy [9, 1, 3, 2, 7] 1 3 = Some (Inr [9, 1, 2, 3, 7]) \<and>
   unchanged_outside [9, 1, 3, 2, 7 :: cint] [9, 1, 2, 3, 7] 1 3"
proof -
  have h: "merge [9, 1, 3, 2, 7] 1 2 3 = Inr [9, 1, 2, 3, 7]"
    "merge_lazy [9, 1, 3, 2, 7] 1 2 3 = Inr [9, 1, 2, 3, 7]"
    "merge_sort [9, 1, 3, 2, 7] 1 3 = Some (Inr [9, 1, 2, 3, 7])"
    "merge_sort_lazy [9, 1, 3, 2, 7] 1 3 = Some (Inr [9, 1, 2, 3, 7])"
    by code_simp+
  with outside_range_untouched [of "[9, 1, 3, 2, 7]" 1 2 3 "[9, 1, 2, 3, 7]"] show ?thesis
    by simp
qed

text \<open>
  C8 at a failing input. The halves \<open>[3]\<close> and \<open>[INT_MAX, INT_MAX]\<close> are in
  non-decreasing order; \<open>merge_lazy\<close> returns the vector, \<open>merge\<close> reads \<open>L[2]\<close>, outside
  its left buffer. The same happens in the last merge of sorting
  \<open>[1, 2, INT_MAX, INT_MAX]\<close>.
\<close>

theorem merge_variants_differ:
  "non_decreasing (sub_range [3, INT_MAX, INT_MAX] 0 0) \<and>
   non_decreasing (sub_range [3, INT_MAX, INT_MAX] 1 2) \<and>
   merge [3, INT_MAX, INT_MAX] 0 0 2 = Inl OutOfBounds \<and>
   merge_lazy [3, INT_MAX, INT_MAX] 0 0 2 = Inr [3, INT_MAX, INT_MAX] \<and>
   merge_sort [1, 2, INT_MAX, INT_MAX] 0 3 = Some (Inl OutOfBounds) \<and>
   merge_sort_lazy [1, 2, INT_MAX, INT_MAX] 0 3 = Some (Inr [1, 2, INT_MAX, INT_MAX])"
  by code_simp

text \<open>
  C9. The entry point merges \<open>[1, 3, 5, 2, 4, 6, 8]\<close> (with \<open>low = 0\<close>, \<open>mid = 2\<close>,
  \<open>high = 6\<close>) to \<open>[1, 2, 3, 4, 5, 6, 8]\<close>, sorts \<open>[31, 41, 59, 26, 42, 58]\<close> to
  \<open>[26, 31, 41, 42, 58, 59]\<close>, writes each result with a space after every number and a
  newline (the character \<open>0x0A\<close>) at the end of the line, and returns 0. The expected
  output is spelled out character by character.
\<close>

theorem main_output:
  "merge [1, 3, 5, 2, 4, 6, 8] 0 2 (size_v [1, 3, 5, 2, 4, 6, 8 :: cint] - 1) =
     Inr [1, 2, 3, 4, 5, 6, 8] \<and>
   merge_sort_lazy [31, 41, 59, 26, 42, 58] 0 (size_v [31, 41, 59, 26, 42, 58 :: cint] - 1) =
     Some (Inr [26, 31, 41, 42, 58, 59]) \<and>
   main = Some (Inr (''1 2 3 4 5 6 8 '' @ [CHR 0x0A] @ ''26 31 41 42 58 59 '' @ [CHR 0x0A], 0))"
  by code_simp

text \<open>
  C10. In a call \<open>merge A p q r\<close> with \<open>p \<le> q \<le> r < len(A)\<close> where every element of
  \<open>A[p..r]\<close> is less than \<open>INT_MAX\<close>: the buffers have \<open>n1 + 1\<close> and \<open>n2 + 1\<close> elements
  for \<open>n1 = q - p + 1\<close> and \<open>n2 = r - q\<close>; in every state the scan passes through the left
  cursor is at most \<open>n1\<close> and the right cursor at most \<open>n2\<close>, so that the reads \<open>L[i]\<close> and
  \<open>R[j]\<close> are inside the buffers; an iteration never copies the sentinel slot (it takes
  \<open>L[i]\<close> only when \<open>i < n1\<close> and \<open>R[j]\<close> only when \<open>j < n2\<close>); the call returns, and
  \<open>INT_MAX\<close> does not occur in \<open>A[p..r]\<close> afterwards.
\<close>

theorem merge_cursors_within_buffers:
  assumes pq: "p \<le> q" and qr: "q \<le> r" and rA: "unat r < length A" and len: "length A < 2 ^ 63"
    and below: "\<forall>x\<in>set (sub_range A p r). sint x < sint INT_MAX"
  shows "\<exists>L R tr A'.
           merge_setup A p q r = Inr (L, R) \<and>
           length L = Suc (unat (q - p + 1)) \<and> length R = Suc (unat (r - q)) \<and>
           merge_trace A p q r = Inr tr \<and>
           (\<forall>s\<in>set tr. si s \<le> q - p + 1 \<and> sj s \<le> r - q \<and>
                      vec_get L (si s) \<noteq> Inl OutOfBounds \<and> vec_get R (sj s) \<noteq> Inl OutOfBounds) \<and>
           (\<forall>s\<in>set tr. sk s \<le> r \<longrightarrow>
                      (if sint (L ! unat (si s)) \<le> sint (R ! unat (sj s))
                       then si s < q - p + 1 else sj s < r - q)) \<and>
           merge A p q r = Inr A' \<and>
           (\<forall>x\<in>set (sub_range A' p r). x \<noteq> INT_MAX)"
proof -
  define pre xs ys post where "pre = take (unat p) A"
    and "xs = take (Suc (unat q - unat p)) (drop (unat p) A)"
    and "ys = take (unat r - unat q) (drop (Suc (unat q)) A)"
    and "post = drop (Suc (unat r)) A"
  from pq qr have le: "unat p \<le> unat q" "unat q \<le> unat r"
    by (simp_all add: word_le_nat_alt)
  have A: "A = pre @ xs @ ys @ post"
    unfolding pre_def xs_def ys_def post_def using le rA by (rule range_decomp)
  have lpre: "length pre = unat p" and lxs: "length xs = Suc (unat q - unat p)"
    and lys: "length ys = unat r - unat q"
    using le rA by (simp_all add: pre_def xs_def ys_def)
  have "sub_range A p r = xs @ ys"
    unfolding xs_def ys_def using le by (rule sub_range_split)
  with below have nx: "\<forall>x\<in>set xs. x \<noteq> INT_MAX" and ny: "\<forall>y\<in>set ys. y \<noteq> INT_MAX"
    by (simp_all add: below_INT_MAX)
  from rA len have r63: "Suc (unat r) < 2 ^ 63"
    by simp
  have n1: "unat (q - p + 1) = length xs"
    using le r63 pq by (simp add: unat_word_ariths unat_sub lxs)
  have n2: "unat (r - q) = length ys"
    using qr by (simp add: unat_sub lys)
  from lxs lys le r63 have l63: "length xs < 2 ^ 63" "length ys < 2 ^ 63"
    by simp_all
  note ms = merge_setup_spec [OF A lpre lxs lys pq qr len]
  from merge_trace_spec [OF A lpre lxs lys pq qr len nx ny]
  obtain tr where tr: "merge_trace A p q r = Inr tr" and inv: "\<forall>t\<in>set tr. scan_inv xs ys r t"
    by blast
  note mg = merge_spec [OF A lpre lxs lys pq qr len nx ny]
  have cur: "si s \<le> q - p + 1 \<and> sj s \<le> r - q \<and>
             vec_get (xs @ [INT_MAX]) (si s) \<noteq> Inl OutOfBounds \<and>
             vec_get (ys @ [INT_MAX]) (sj s) \<noteq> Inl OutOfBounds" if "s \<in> set tr" for s
  proof -
    from inv that have "scan_inv xs ys r s" ..
    then have "unat (si s) \<le> length xs" "unat (sj s) \<le> length ys"
      by (simp_all add: scan_inv_def)
    with l63 show ?thesis
      by (simp add: word_le_nat_alt n1 n2 vec_get_ok)
  qed
  have wr: "if sint ((xs @ [INT_MAX]) ! unat (si s)) \<le> sint ((ys @ [INT_MAX]) ! unat (sj s))
            then si s < q - p + 1 else sj s < r - q" if "s \<in> set tr" "sk s \<le> r" for s
  proof -
    from inv that have "scan_inv xs ys r s" by blast
    from scan_inv_writes_element [OF this that(2) nx ny] show ?thesis
      by (simp add: word_less_nat_alt n1 n2)
  qed
  have "sub_range (pre @ std_merge xs ys @ post) p r = std_merge xs ys"
    by (rule sub_range_middle [where pre = pre and post = post])
       (use le in \<open>simp_all add: lpre length_std_merge lxs lys\<close>)
  with nx ny have out: "\<forall>x\<in>set (sub_range (pre @ std_merge xs ys @ post) p r). x \<noteq> INT_MAX"
    by (auto simp: set_std_merge)
  from ms tr mg cur wr out show ?thesis
    by (simp add: n1 n2)
qed

theorem merge_cursors_within_buffers_witness:
  "(0 :: size_t) \<le> 2 \<and> (2 :: size_t) \<le> 6 \<and> unat (6 :: size_t) < length [1, 3, 5, 2, 4, 6, 8 :: cint] \<and>
   length [1, 3, 5, 2, 4, 6, 8 :: cint] < 2 ^ 63 \<and>
   list_all (\<lambda>x. sint x < sint INT_MAX) (sub_range [1, 3, 5, 2, 4, 6, 8 :: cint] 0 6) \<and>
   (\<exists>L R tr A'.
           merge_setup [1, 3, 5, 2, 4, 6, 8] 0 2 6 = Inr (L, R) \<and>
           length L = Suc (unat (2 - 0 + 1 :: size_t)) \<and> length R = Suc (unat (6 - 2 :: size_t)) \<and>
           merge_trace [1, 3, 5, 2, 4, 6, 8] 0 2 6 = Inr tr \<and>
           (\<forall>s\<in>set tr. si s \<le> 2 - 0 + 1 \<and> sj s \<le> 6 - 2 \<and>
                      vec_get L (si s) \<noteq> Inl OutOfBounds \<and> vec_get R (sj s) \<noteq> Inl OutOfBounds) \<and>
           (\<forall>s\<in>set tr. sk s \<le> 6 \<longrightarrow>
                      (if sint (L ! unat (si s)) \<le> sint (R ! unat (sj s))
                       then si s < 2 - 0 + 1 else sj s < 6 - 2)) \<and>
           merge [1, 3, 5, 2, 4, 6, 8] 0 2 6 = Inr A' \<and>
           (\<forall>x\<in>set (sub_range A' 0 6). x \<noteq> INT_MAX))"
proof -
  have h: "\<forall>x\<in>set (sub_range [1, 3, 5, 2, 4, 6, 8 :: cint] 0 6). sint x < sint INT_MAX"
    by (simp add: sub_range_def INT_MAX_def)
  have "(0 :: size_t) \<le> 2" "(2 :: size_t) \<le> 6" "unat (6 :: size_t) < length [1, 3, 5, 2, 4, 6, 8 :: cint]"
    "length [1, 3, 5, 2, 4, 6, 8 :: cint] < 2 ^ 63"
    by simp_all
  from merge_cursors_within_buffers [OF this h] this h show ?thesis
    unfolding list_all_iff by blast
qed

end
